theory Spec2Isabelle
  imports Main "HOL-Library.AList" "HOL-Library.Char_ord" "HOL-Library.List_Lexorder"
begin

section \<open>Values and dictionaries\<close>

text \<open>
  The values a record of \<^verbatim>\<open>etl_pipeline.py\<close> holds are what \<^verbatim>\<open>json.loads\<close> returns, plus
  the strings and integers the extractors write. Python's \<^verbatim>\<open>None\<close> is \<open>JNull\<close>. A float is kept
  as the literal it was written with (its IEEE value is not modelled). A character is one
  code point below 256, so the documents covered are the Latin-1 ones.

  A Python \<^verbatim>\<open>dict\<close> keeps its keys in insertion order: it is an association list with
  distinct keys. \<^verbatim>\<open>d[k] = v\<close> is \<open>AList.update k v d\<close>: the value is replaced in place when the
  key is there, the pair is appended otherwise.
\<close>

datatype jvalue =
    JNull
  | JBool bool
  | JInt int
  | JFloat string
  | JStr string
  | JArr "jvalue list"
  | JObj "(string \<times> jvalue) list"

type_synonym pydict = "(string \<times> jvalue) list"

definition keys :: "(string \<times> 'v) list \<Rightarrow> string list" where
  "keys d = map fst d"

text \<open>\<^verbatim>\<open>dict(items)\<close>: the pairs are stored one after the other.\<close>

definition py_dict :: "(string \<times> 'v) list \<Rightarrow> (string \<times> 'v) list" where
  "py_dict items = fold (\<lambda>kv d. AList.update (fst kv) (snd kv) d) items []"

text \<open>\<^verbatim>\<open>d.get(k)\<close>: \<^verbatim>\<open>None\<close> when the key is missing.\<close>

definition py_get :: "pydict \<Rightarrow> string \<Rightarrow> jvalue" where
  "py_get d k = (case map_of d k of Some v \<Rightarrow> v | None \<Rightarrow> JNull)"

text \<open>\<^verbatim>\<open>if x not in acc: acc.append(x)\<close>\<close>

definition append_new :: "'a \<Rightarrow> 'a list \<Rightarrow> 'a list" where
  "append_new x acc = (if x \<in> set acc then acc else acc @ [x])"

text \<open>
  \<^verbatim>\<open>list(set(xs))\<close> and the iteration over a \<^verbatim>\<open>set\<close>: Python leaves the order open. The model
  lists every element once, in the order of first occurrence.
\<close>

definition ordered_unique :: "'a list \<Rightarrow> 'a list" where
  "ordered_unique xs = fold append_new xs []"

section \<open>Strings\<close>

definition py_isspace :: "char \<Rightarrow> bool" where
  "py_isspace c = (let n = (of_char c :: nat) in
     (9 \<le> n \<and> n \<le> 13) \<or> (28 \<le> n \<and> n \<le> 32) \<or> n = 133 \<or> n = 160)"

text \<open>\<^verbatim>\<open>s.strip()\<close>\<close>

definition strip :: "string \<Rightarrow> string" where
  "strip s = rev (dropWhile py_isspace (rev (dropWhile py_isspace s)))"

text \<open>\<^verbatim>\<open>s.split(sep)\<close> for a separator of one character: the pieces between the separators.\<close>

fun split_on :: "char \<Rightarrow> string \<Rightarrow> string list" where
  "split_on sep [] = [[]]"
| "split_on sep (c # cs) =
     (if c = sep then [] # split_on sep cs
      else (case split_on sep cs of
              [] \<Rightarrow> [[c]]
            | p # ps \<Rightarrow> (c # p) # ps))"

text \<open>\<^verbatim>\<open>s.split()\<close>: the maximal runs without whitespace.\<close>

fun split_ws :: "string \<Rightarrow> string list" where
  "split_ws [] = []"
| "split_ws (c # cs) =
     (if py_isspace c then split_ws cs
      else (case cs of
              [] \<Rightarrow> [[c]]
            | d # ds \<Rightarrow>
                if py_isspace d then [c] # split_ws cs
                else (case split_ws cs of
                        [] \<Rightarrow> [[c]]
                      | w # ws \<Rightarrow> (c # w) # ws)))"

text \<open>
  \<^verbatim>\<open>s.replace(old, '')\<close>: every occurrence of \<open>old\<close> is removed, left to right, without
  overlap. (An empty \<open>old\<close> leaves \<open>s\<close> as it is.)
\<close>

function replace_del :: "string \<Rightarrow> string \<Rightarrow> string" where
  "replace_del old [] = []"
| "replace_del old (c # cs) =
     (if old \<noteq> [] \<and> take (length old) (c # cs) = old
      then replace_del old (drop (length old) (c # cs))
      else c # replace_del old cs)"
  by pat_completeness auto
termination
  by (relation "measure (\<lambda>(old, s). length s)") (auto simp: neq_Nil_conv)

text \<open>\<^verbatim>\<open>str(n)\<close> for an index.\<close>

definition digit_char :: "nat \<Rightarrow> char" where
  "digit_char d = char_of (48 + d)"

fun str_nat :: "nat \<Rightarrow> string" where
  "str_nat n = (if n < 10 then [digit_char n] else str_nat (n div 10) @ [digit_char (n mod 10)])"

declare str_nat.simps [simp del]

section \<open>Regular expressions\<close>

text \<open>
  The patterns of \<^verbatim>\<open>detect_content_types\<close> use characters and classes, sequence, alternation
  and the greedy and the lazy star. \<open>rmatch r s k\<close> is the backtracking matcher of Python's
  \<^verbatim>\<open>re\<close>: it tries the ways \<open>r\<close> matches a prefix of \<open>s\<close> in the order of priority and returns
  the first for which the continuation \<open>k\<close> accepts the rest. An iteration of a star that
  consumes nothing ends the star.
\<close>

datatype rx = Eps | Chr "char \<Rightarrow> bool" | Cat rx rx | Alt rx rx | Star rx | Lazy rx

fun rmatch :: "rx \<Rightarrow> string \<Rightarrow> (string \<Rightarrow> 'a option) \<Rightarrow> 'a option" where
  "rmatch Eps s k = k s"
| "rmatch (Chr p) s k = (case s of [] \<Rightarrow> None | c # cs \<Rightarrow> if p c then k cs else None)"
| "rmatch (Cat a b) s k = rmatch a s (\<lambda>s'. rmatch b s' k)"
| "rmatch (Alt a b) s k = (case rmatch a s k of Some r \<Rightarrow> Some r | None \<Rightarrow> rmatch b s k)"
| "rmatch (Star a) s k =
     (case rmatch a s (\<lambda>s'. if length s' < length s then rmatch (Star a) s' k else None) of
        Some r \<Rightarrow> Some r
      | None \<Rightarrow> k s)"
| "rmatch (Lazy a) s k =
     (case k s of
        Some r \<Rightarrow> Some r
      | None \<Rightarrow> rmatch a s (\<lambda>s'. if length s' < length s then rmatch (Lazy a) s' k else None))"

declare rmatch.simps(5) [simp del] rmatch.simps(6) [simp del]

text \<open>
  \<^verbatim>\<open>re.findall\<close> for a pattern \<open>pre(grp)\<close> with one group at its end (\<open>pre = Eps\<close> when the
  group is the whole pattern, or when the pattern has no group): the matches are searched left
  to right, each search starting where the last match ended, and the text of the group is
  returned. A position with no match is skipped.
\<close>

function findall :: "rx \<Rightarrow> rx \<Rightarrow> string \<Rightarrow> string list" where
  "findall pre grp s =
     (case rmatch pre s (\<lambda>s1. rmatch grp s1 (\<lambda>s2. Some (s1, s2))) of
        Some (s1, s2) \<Rightarrow>
          (if length s2 < length s then take (length s1 - length s2) s1 # findall pre grp s2
           else take (length s1 - length s2) s1 # (if s = [] then [] else findall pre grp (tl s)))
      | None \<Rightarrow> (if s = [] then [] else findall pre grp (tl s)))"
  by pat_completeness auto
termination
  by (relation "measure (\<lambda>(pre, grp, s). length s)") auto

declare findall.simps [simp del]

definition lit :: "string \<Rightarrow> rx" where
  "lit s = foldr (\<lambda>c r. Cat (Chr (\<lambda>x. x = c)) r) s Eps"

text \<open>\<^verbatim>\<open>re.IGNORECASE\<close> on a literal: a letter matches in both cases.\<close>

definition ascii_lower :: "char \<Rightarrow> char" where
  "ascii_lower c = (let n = (of_char c :: nat) in if 65 \<le> n \<and> n \<le> 90 then char_of (n + 32) else c)"

definition lit_ci :: "string \<Rightarrow> rx" where
  "lit_ci s = foldr (\<lambda>c r. Cat (Chr (\<lambda>x. ascii_lower x = ascii_lower c)) r) s Eps"

definition one_or_more :: "rx \<Rightarrow> rx" where
  "one_or_more r = Cat r (Star r)"

fun at_least :: "nat \<Rightarrow> rx \<Rightarrow> rx" where
  "at_least 0 r = Star r"
| "at_least (Suc n) r = Cat r (at_least n r)"

definition any_char :: rx where
  "any_char = Chr (\<lambda>c. True)"

definition not_char :: "string \<Rightarrow> rx" where
  "not_char cs = Chr (\<lambda>c. c \<notin> set cs)"

text \<open>
  The five HTML patterns, with \<^verbatim>\<open>re.DOTALL | re.IGNORECASE\<close>:
  \<^verbatim>\<open><html[^>]*>.*?</html>\<close>, \<^verbatim>\<open><!DOCTYPE[^>]*>.*?</html>\<close>, \<^verbatim>\<open><div[^>]*>.*?</div>\<close>,
  \<^verbatim>\<open><p[^>]*>.*?</p>\<close>, \<^verbatim>\<open><body[^>]*>.*?</body>\<close>.
\<close>

definition tag_pattern :: "string \<Rightarrow> string \<Rightarrow> rx" where
  "tag_pattern opening closing =
     Cat (lit_ci opening) (Cat (Star (not_char ''>'')) (Cat (lit ''>'')
       (Cat (Lazy any_char) (lit_ci closing))))"

definition html_patterns :: "rx list" where
  "html_patterns =
     [tag_pattern ''<html'' ''</html>'',
      tag_pattern ''<!DOCTYPE'' ''</html>'',
      tag_pattern ''<div'' ''</div>'',
      tag_pattern ''<p'' ''</p>'',
      tag_pattern ''<body'' ''</body>'']"

text \<open>
  The JSON pattern \<^verbatim>\<open>\{(?:[^{}]|(?:\{[^{}]*\}))*\}\<close>; \<open>json_item\<close> is what its star repeats, a
  character that is no brace or a pair of braces around such characters.
\<close>

definition json_item :: rx where
  "json_item = Alt (not_char ''{}'') (Cat (lit ''{'') (Cat (Star (not_char ''{}'')) (lit ''}'')))"

definition json_pattern :: rx where
  "json_pattern = Cat (lit ''{'') (Cat (Star json_item) (lit ''}''))"

text \<open>
  The base64 patterns, each with its group:
  \<^verbatim>\<open>data:image/[^;]+;base64,([A-Za-z0-9+/=]+)\<close>, \<^verbatim>\<open>data:text/[^;]+;base64,([A-Za-z0-9+/=]+)\<close>,
  \<^verbatim>\<open>([A-Za-z0-9+/]{64,}={0,2})\<close>.
\<close>

definition is_base64 :: "char \<Rightarrow> bool" where
  "is_base64 c = (let n = (of_char c :: nat) in
     (65 \<le> n \<and> n \<le> 90) \<or> (97 \<le> n \<and> n \<le> 122) \<or> (48 \<le> n \<and> n \<le> 57)
       \<or> c = CHR ''+'' \<or> c = CHR ''/'')"

definition base64_patterns :: "(rx \<times> rx) list" where
  "base64_patterns =
     [(Cat (lit ''data:image/'') (Cat (one_or_more (not_char '';'')) (lit '';base64,'')),
       one_or_more (Chr (\<lambda>c. is_base64 c \<or> c = CHR ''=''))),
      (Cat (lit ''data:text/'') (Cat (one_or_more (not_char '';'')) (lit '';base64,'')),
       one_or_more (Chr (\<lambda>c. is_base64 c \<or> c = CHR ''=''))),
      (Eps,
       Cat (at_least 64 (Chr is_base64))
           (Alt (Cat (lit ''='') (Alt (lit ''='') Eps)) Eps))]"

section \<open>\<^verbatim>\<open>json.loads\<close>\<close>

text \<open>
  The decoder of Python's \<^verbatim>\<open>json\<close> module, as \<^verbatim>\<open>json.loads\<close> runs it with its defaults: the
  whitespace is space, tab, line feed and carriage return; a string may not hold a control
  character; the escapes are the eight of one letter and \<^verbatim>\<open>\uXXXX\<close>; a number is
  \<^verbatim>\<open>-?(0|[1-9][0-9]*)(\.[0-9]+)?([eE][-+]?[0-9]+)?\<close>, an \<^verbatim>\<open>int\<close> without fraction and exponent and a
  \<^verbatim>\<open>float\<close> with one of them; \<^verbatim>\<open>NaN\<close>, \<^verbatim>\<open>Infinity\<close> and \<^verbatim>\<open>-Infinity\<close> are read as floats; a key
  that comes twice keeps its last value; nothing but whitespace may follow the value.
  \<open>None\<close> is the \<^verbatim>\<open>JSONDecodeError\<close>.

  Outside the model: an escape \<^verbatim>\<open>\uXXXX\<close> above \<^verbatim>\<open>\u00ff\<close> has no character here and is answered
  with \<open>None\<close> too, and the limits of the interpreter (recursion depth, digits of an integer)
  are not modelled.
\<close>

definition json_ws :: "char \<Rightarrow> bool" where
  "json_ws c = (c = CHR '' '' \<or> c = CHR 0x09 \<or> c = CHR 0x0A \<or> c = CHR 0x0D)"

definition skip_ws :: "string \<Rightarrow> string" where
  "skip_ws s = dropWhile json_ws s"

definition is_digit :: "char \<Rightarrow> bool" where
  "is_digit c = (let n = (of_char c :: nat) in 48 \<le> n \<and> n \<le> 57)"

definition hex_val :: "char \<Rightarrow> nat option" where
  "hex_val c = (let n = (of_char c :: nat) in
     if 48 \<le> n \<and> n \<le> 57 then Some (n - 48)
     else if 97 \<le> n \<and> n \<le> 102 then Some (n - 87)
     else if 65 \<le> n \<and> n \<le> 70 then Some (n - 55)
     else None)"

fun hex4 :: "string \<Rightarrow> nat option" where
  "hex4 [a, b, c, d] =
     (case (hex_val a, hex_val b, hex_val c, hex_val d) of
        (Some x, Some y, Some z, Some w) \<Rightarrow> Some (((x * 16 + y) * 16 + z) * 16 + w)
      | _ \<Rightarrow> None)"
| "hex4 _ = None"

definition unescape :: "char \<Rightarrow> char option" where
  "unescape e =
     (if e = CHR 0x22 then Some (CHR 0x22)
      else if e = CHR 0x5C then Some (CHR 0x5C)
      else if e = CHR ''/'' then Some (CHR ''/'')
      else if e = CHR ''b'' then Some (CHR 0x08)
      else if e = CHR ''f'' then Some (CHR 0x0C)
      else if e = CHR ''n'' then Some (CHR 0x0A)
      else if e = CHR ''r'' then Some (CHR 0x0D)
      else if e = CHR ''t'' then Some (CHR 0x09)
      else None)"

definition prepend :: "char \<Rightarrow> (string \<times> string) option \<Rightarrow> (string \<times> string) option" where
  "prepend c r = (case r of None \<Rightarrow> None | Some (str, rest) \<Rightarrow> Some (c # str, rest))"

text \<open>\<open>scanstring s\<close> reads a string whose opening quote is just before \<open>s\<close>.\<close>

fun scanstring :: "string \<Rightarrow> (string \<times> string) option" where
  "scanstring [] = None"
| "scanstring (c # cs) =
     (if c = CHR 0x22 then Some ([], cs)
      else if c = CHR 0x5C then
        (case cs of
           [] \<Rightarrow> None
         | e # es \<Rightarrow>
             if e = CHR ''u'' then
               (case hex4 (take 4 es) of
                  None \<Rightarrow> None
                | Some n \<Rightarrow> if n < 256 then prepend (char_of n) (scanstring (drop 4 es)) else None)
             else
               (case unescape e of
                  None \<Rightarrow> None
                | Some ch \<Rightarrow> prepend ch (scanstring es)))
      else if (of_char c :: nat) < 32 then None
      else prepend c (scanstring cs))"

definition digits_val :: "string \<Rightarrow> int" where
  "digits_val ds = foldl (\<lambda>n d. 10 * n + (int (of_char d) - 48)) 0 ds"

text \<open>
  \<open>scan_number s\<close>: the longest number at the start of \<open>s\<close>, with the text after it. The sign, the
  integer part \<^verbatim>\<open>0|[1-9][0-9]*\<close>, the fraction \<^verbatim>\<open>\.[0-9]+\<close> and the exponent \<^verbatim>\<open>[eE][-+]?[0-9]+\<close>
  are read one after the other; a fraction or an exponent that is not complete is not part of the
  number.
\<close>

definition number_sign :: "string \<Rightarrow> string \<times> string" where
  "number_sign s =
     (case s of
        [] \<Rightarrow> ([], s)
      | c # cs \<Rightarrow> if c = CHR ''-'' then (''-'', cs) else ([], s))"

definition int_digits :: "string \<Rightarrow> string" where
  "int_digits s =
     (case s of
        [] \<Rightarrow> []
      | d # ds \<Rightarrow>
          if \<not> is_digit d then []
          else if d = CHR ''0'' then [d]
          else d # takeWhile is_digit ds)"

definition frac_digits :: "string \<Rightarrow> string" where
  "frac_digits s =
     (case s of
        p # f # fs \<Rightarrow> if p = CHR ''.'' \<and> is_digit f then p # f # takeWhile is_digit fs else []
      | _ \<Rightarrow> [])"

definition exp_digits :: "string \<Rightarrow> string" where
  "exp_digits s =
     (case s of
        e # x # xs \<Rightarrow>
          if e = CHR ''e'' \<or> e = CHR ''E'' then
            (if is_digit x then e # x # takeWhile is_digit xs
             else if x = CHR ''+'' \<or> x = CHR ''-'' then
               (case xs of
                  [] \<Rightarrow> []
                | y # ys \<Rightarrow> if is_digit y then e # x # y # takeWhile is_digit ys else [])
             else [])
          else []
      | _ \<Rightarrow> [])"

definition scan_number :: "string \<Rightarrow> (jvalue \<times> string) option" where
  "scan_number s =
     (let sign = fst (number_sign s);
          s1 = snd (number_sign s);
          intpart = int_digits s1;
          s2 = drop (length intpart) s1;
          frac = frac_digits s2;
          s3 = drop (length frac) s2;
          ex = exp_digits s3;
          s4 = drop (length ex) s3
      in if intpart = [] then None
         else if frac = [] \<and> ex = []
         then Some (JInt (if sign = [] then digits_val intpart else - digits_val intpart), s4)
         else Some (JFloat (sign @ intpart @ frac @ ex), s4))"

definition literal :: "string \<Rightarrow> jvalue \<Rightarrow> string \<Rightarrow> (jvalue \<times> string) option" where
  "literal word v s = (if take (length word) s = word then Some (v, drop (length word) s) else None)"

text \<open>
  \<open>parse_value\<close> is \<^verbatim>\<open>scan_once\<close>; \<open>parse_object acc s\<close> is the loop of \<^verbatim>\<open>JSONObject\<close> over the
  members, \<open>s\<close> standing after the opening quote of a key; \<open>parse_array acc s\<close> is the loop of
  \<^verbatim>\<open>JSONArray\<close>, \<open>s\<close> standing at an element. Every recursive call is on a shorter text: the
  tests on \<open>length\<close> say so for the termination proof and are always true (lemmas
  \<open>parse_value_unguarded\<close>, \<open>parse_object_unguarded\<close> and \<open>parse_array_unguarded\<close> give the
  equations without them).
\<close>

function parse_value :: "string \<Rightarrow> (jvalue \<times> string) option"
  and parse_object :: "(string \<times> jvalue) list \<Rightarrow> string \<Rightarrow> (jvalue \<times> string) option"
  and parse_array :: "jvalue list \<Rightarrow> string \<Rightarrow> (jvalue \<times> string) option"
where
  "parse_value s =
     (case s of
        [] \<Rightarrow> None
      | c # cs \<Rightarrow>
          if c = CHR 0x22 then
            (case scanstring cs of None \<Rightarrow> None | Some (str, rest) \<Rightarrow> Some (JStr str, rest))
          else if c = CHR ''{'' then
            (case skip_ws cs of
               [] \<Rightarrow> None
             | d # ds \<Rightarrow>
                 if d = CHR ''}'' then Some (JObj [], ds)
                 else if d = CHR 0x22 \<and> length ds < length s then parse_object [] ds
                 else None)
          else if c = CHR ''['' then
            (case skip_ws cs of
               [] \<Rightarrow> None
             | d # ds \<Rightarrow>
                 if d = CHR '']'' then Some (JArr [], ds)
                 else if length (d # ds) < length s then parse_array [] (d # ds)
                 else None)
          else if c = CHR ''n'' then literal ''null'' JNull s
          else if c = CHR ''t'' then literal ''true'' (JBool True) s
          else if c = CHR ''f'' then literal ''false'' (JBool False) s
          else
            (case scan_number s of
               Some r \<Rightarrow> Some r
             | None \<Rightarrow>
                 if c = CHR ''N'' then literal ''NaN'' (JFloat ''NaN'') s
                 else if c = CHR ''I'' then literal ''Infinity'' (JFloat ''Infinity'') s
                 else if c = CHR ''-'' then literal ''-Infinity'' (JFloat ''-Infinity'') s
                 else None))"
| "parse_object acc s =
     (case scanstring s of
        None \<Rightarrow> None
      | Some (key, r) \<Rightarrow>
          (case skip_ws r of
             [] \<Rightarrow> None
           | c # r1 \<Rightarrow>
               if c \<noteq> CHR '':'' \<or> \<not> length (skip_ws r1) < length s then None
               else
                 (case parse_value (skip_ws r1) of
                    None \<Rightarrow> None
                  | Some (v, r2) \<Rightarrow>
                      (case skip_ws r2 of
                         [] \<Rightarrow> None
                       | d # r3 \<Rightarrow>
                           if d = CHR ''}'' then Some (JObj (py_dict (acc @ [(key, v)])), r3)
                           else if d = CHR '','' then
                             (case skip_ws r3 of
                                [] \<Rightarrow> None
                              | q # r4 \<Rightarrow>
                                  if q = CHR 0x22 \<and> length r4 < length s
                                  then parse_object (acc @ [(key, v)]) r4
                                  else None)
                           else None))))"
| "parse_array acc s =
     (case parse_value s of
        None \<Rightarrow> None
      | Some (v, r) \<Rightarrow>
          (case skip_ws r of
             [] \<Rightarrow> None
           | d # r1 \<Rightarrow>
               if d = CHR '']'' then Some (JArr (acc @ [v]), r1)
               else if d = CHR '','' \<and> length (skip_ws r1) < length s
               then parse_array (acc @ [v]) (skip_ws r1)
               else None))"
  by pat_completeness auto
termination
  by (relation "measure (\<lambda>x. case x of
         Inl s \<Rightarrow> 2 * length s
       | Inr (Inl (acc, s)) \<Rightarrow> 2 * length s
       | Inr (Inr (acc, s)) \<Rightarrow> 2 * length s + 1)") auto

declare parse_value.simps [simp del] parse_object.simps [simp del] parse_array.simps [simp del]

definition json_loads :: "string \<Rightarrow> jvalue option" where
  "json_loads s =
     (case parse_value (skip_ws s) of
        None \<Rightarrow> None
      | Some (v, rest) \<Rightarrow> if skip_ws rest = [] then Some v else None)"

section \<open>Detection\<close>

record detected =
  det_html :: "string list"
  det_json :: "string list"
  det_text :: "string list"
  det_base64 :: "string list"

text \<open>
  The loop over the JSON candidates: a candidate that \<^verbatim>\<open>json.loads\<close> refuses is passed over, one
  that is in the list already is not added again.
\<close>

definition keep_valid :: "string \<Rightarrow> string list \<Rightarrow> string list" where
  "keep_valid m acc = (case json_loads m of None \<Rightarrow> acc | Some v \<Rightarrow> append_new m acc)"

definition detect_content_types :: "string \<Rightarrow> detected" where
  "detect_content_types content =
     (let html = ordered_unique (concat (map (\<lambda>pattern. findall Eps pattern content) html_patterns));
          json_matches = findall Eps json_pattern content;
          json = fold keep_valid json_matches [];
          base64 = ordered_unique
                     (concat (map (\<lambda>pattern. findall (fst pattern) (snd pattern) content) base64_patterns));
          remaining_text = fold replace_del json (fold replace_del html content);
          paragraphs = map strip
                         (filter (\<lambda>p. strip p \<noteq> [] \<and> length (strip p) > 5)
                                 (split_on CHR 0x0A remaining_text))
      in \<lparr>det_html = html, det_json = json, det_text = paragraphs, det_base64 = base64\<rparr>)"

section \<open>Extraction\<close>

text \<open>
  \<^verbatim>\<open>flatten_dict\<close>: \<open>flatten_loop\<close> is its \<^verbatim>\<open>for\<close> loop, which collects the items, and
  \<open>flatten_dict\<close> makes the dictionary of them.
\<close>

fun flatten_dict :: "pydict \<Rightarrow> string \<Rightarrow> string \<Rightarrow> pydict"
  and flatten_loop :: "pydict \<Rightarrow> string \<Rightarrow> string \<Rightarrow> pydict"
where
  "flatten_dict d parent_key sep = py_dict (flatten_loop d parent_key sep)"
| "flatten_loop [] parent_key sep = []"
| "flatten_loop ((k, v) # rest) parent_key sep =
     (let new_key = (if parent_key \<noteq> [] then parent_key @ sep @ k else k) in
      (case v of
         JObj d' \<Rightarrow> flatten_dict d' new_key sep
       | JArr xs \<Rightarrow> [(new_key, v)]
       | _ \<Rightarrow> [(new_key, v)])
      @ flatten_loop rest parent_key sep)"

text \<open>
  \<^verbatim>\<open>extract_html\<close> reads the title and the words with BeautifulSoup, which is not part of the
  repository: what it answers for a span is a parameter of the model. \<open>soup_title\<close> is the value
  of \<^verbatim>\<open>soup.title.string if soup.title else ''\<close>, \<open>soup_word_count\<close> that of
  \<^verbatim>\<open>len(soup.get_text().split())\<close>.
\<close>

record soup =
  soup_title :: "string \<Rightarrow> jvalue"
  soup_word_count :: "string \<Rightarrow> nat"

definition extract_html :: "soup \<Rightarrow> string \<Rightarrow> pydict" where
  "extract_html bs html_string =
     [(''type'', JStr ''html''),
      (''title'', soup_title bs html_string),
      (''word_count'', JInt (int (soup_word_count bs html_string)))]"

definition extract_json :: "string \<Rightarrow> pydict" where
  "extract_json json_string =
     (case json_loads json_string of
        Some (JObj data) \<Rightarrow> AList.update ''type'' (JStr ''json'') (flatten_dict data [] ''_'')
      | _ \<Rightarrow> [(''type'', JStr ''json''),
              (''error'', JStr ''Invalid JSON''),
              (''raw'', JStr (take 100 json_string))])"

definition extract_text :: "string \<Rightarrow> pydict" where
  "extract_text txt =
     [(''type'', JStr ''text''),
      (''title'', JStr (if length txt > 50 then take 50 txt else txt)),
      (''word_count'', JInt (int (length (split_ws txt))))]"

definition extract_media :: "string \<Rightarrow> pydict" where
  "extract_media base64_data =
     [(''type'', JStr ''media''),
      (''title'', JStr ''Base64 Media''),
      (''word_count'', JInt 0)]"

text \<open>The state of an \<^verbatim>\<open>ETLPipeline\<close> the core works on.\<close>

record descriptor =
  value_types :: "string list"
  nullable :: bool
  present_in :: nat

record pipeline =
  extracted_data :: "pydict list"
  schema :: "(string \<times> descriptor) list"

text \<open>One loop of \<^verbatim>\<open>extract\<close>: the records of the spans of one type, each with its index.\<close>

definition extract_all :: "string \<Rightarrow> (string \<Rightarrow> pydict) \<Rightarrow> string list \<Rightarrow> pydict list" where
  "extract_all tag extractor spans =
     map (\<lambda>(idx, span). AList.update ''source_index'' (JStr (tag @ ''_'' @ str_nat idx)) (extractor span))
         (enumerate 0 spans)"

definition extract_content :: "soup \<Rightarrow> string \<Rightarrow> pipeline \<Rightarrow> pipeline" where
  "extract_content bs content st =
     (let detected = detect_content_types content in
      st\<lparr>extracted_data :=
           extracted_data st
           @ extract_all ''html'' (extract_html bs) (det_html detected)
           @ extract_all ''json'' extract_json (det_json detected)
           @ extract_all ''text'' extract_text (det_text detected)
           @ extract_all ''media'' extract_media (det_base64 detected)\<rparr>)"

section \<open>Schema inference\<close>

text \<open>
  \<^verbatim>\<open>type(v).__name__\<close>. (The title BeautifulSoup returns is of a subclass of \<^verbatim>\<open>str\<close>, for which
  Python gives the name of the subclass; the model keeps it as a string. This reaches the list
  \<open>value_types\<close> of a descriptor only.)
\<close>

fun type_name :: "jvalue \<Rightarrow> string" where
  "type_name JNull = ''NoneType''"
| "type_name (JBool b) = ''bool''"
| "type_name (JInt n) = ''int''"
| "type_name (JFloat x) = ''float''"
| "type_name (JStr s) = ''str''"
| "type_name (JArr xs) = ''list''"
| "type_name (JObj d) = ''dict''"

definition all_keys :: "pydict list \<Rightarrow> string list" where
  "all_keys data = ordered_unique (concat (map keys data))"

text \<open>The descriptor the first loop of \<^verbatim>\<open>infer_schema\<close> stores for a key.\<close>

definition describe :: "pydict list \<Rightarrow> string \<Rightarrow> descriptor" where
  "describe data key =
     (let values = map (\<lambda>item. py_get item key) (filter (\<lambda>item. key \<in> set (keys item)) data);
          types = ordered_unique (map type_name (filter (\<lambda>v. v \<noteq> JNull) values))
      in \<lparr>value_types = (if types \<noteq> [] then types else [''NoneType'']),
          nullable = (\<exists>v \<in> set (map (\<lambda>item. py_get item key) data). v = JNull),
          present_in = length (filter (\<lambda>item. key \<in> set (keys item)) data)\<rparr>)"

text \<open>The second loop: a record gets \<^verbatim>\<open>None\<close> under every key it lacks.\<close>

definition fill_missing :: "string list \<Rightarrow> pydict \<Rightarrow> pydict" where
  "fill_missing ks item =
     fold (\<lambda>key it. if key \<notin> set (keys it) then AList.update key JNull it else it) ks item"

definition infer_schema :: "pipeline \<Rightarrow> pipeline" where
  "infer_schema st =
     (let data = extracted_data st; ks = all_keys data in
      \<lparr>extracted_data = map (fill_missing ks) data,
       schema = fold (\<lambda>key sch. AList.update key (describe data key) sch) ks (schema st)\<rparr>)"

section \<open>Tables\<close>

text \<open>
  A \<^verbatim>\<open>DataFrame\<close> is its column names, in order, and its rows; a row holds one cell for every
  column. A cell holds the value the record had, or \<open>NaN\<close> where pandas fills in a missing
  value. The column types pandas infers, and the conversions of values that come with them, are
  not modelled.
\<close>

datatype cell = Val jvalue | NaN

record dataframe =
  columns :: "string list"
  rows :: "(string \<times> cell) list list"

datatype py_error = TypeError | KeyError

definition empty_frame :: dataframe where
  "empty_frame = \<lparr>columns = [], rows = []\<rparr>"

definition cell_of :: "pydict \<Rightarrow> string \<Rightarrow> cell" where
  "cell_of r c = (case map_of r c of Some v \<Rightarrow> Val v | None \<Rightarrow> NaN)"

definition row_get :: "(string \<times> cell) list \<Rightarrow> string \<Rightarrow> cell" where
  "row_get row c = (case map_of row c of Some x \<Rightarrow> x | None \<Rightarrow> NaN)"

text \<open>\<^verbatim>\<open>pd.DataFrame(records)\<close>: the columns are the keys, in the order they are first seen.\<close>

definition DataFrame :: "pydict list \<Rightarrow> dataframe" where
  "DataFrame records =
     (let cols = ordered_unique (concat (map keys records)) in
      \<lparr>columns = cols, rows = map (\<lambda>r. map (\<lambda>c. (c, cell_of r c)) cols) records\<rparr>)"

text \<open>\<^verbatim>\<open>df[cols]\<close>: a \<^verbatim>\<open>KeyError\<close> when a name is not a column.\<close>

definition select_columns :: "dataframe \<Rightarrow> string list \<Rightarrow> py_error + dataframe" where
  "select_columns df cols =
     (if \<exists>c \<in> set cols. c \<notin> set (columns df) then Inl KeyError
      else Inr \<lparr>columns = cols, rows = map (\<lambda>row. map (\<lambda>c. (c, row_get row c)) cols) (rows df)\<rparr>)"

text \<open>
  \<^verbatim>\<open>pd.concat(frames, ignore_index=True, sort=False)\<close>: the columns of all frames, in the order
  they are first seen; a row has \<open>NaN\<close> in the columns its frame lacks.
\<close>

definition concat_frames :: "dataframe list \<Rightarrow> dataframe" where
  "concat_frames frames =
     (let cols = ordered_unique (concat (map columns frames)) in
      \<lparr>columns = cols,
       rows = concat (map (\<lambda>df. map (\<lambda>row. map (\<lambda>c. (c, row_get row c)) cols) (rows df)) frames)\<rparr>)"

text \<open>\<^verbatim>\<open>df[col] = x\<close> for a scalar \<open>x\<close>.\<close>

definition set_column :: "dataframe \<Rightarrow> string \<Rightarrow> cell \<Rightarrow> dataframe" where
  "set_column df col x =
     \<lparr>columns = append_new col (columns df), rows = map (AList.update col x) (rows df)\<rparr>"

text \<open>
  \<^verbatim>\<open>pd.to_numeric(column, errors='coerce').fillna(0).astype(int)\<close>: an integer stays what it is,
  and what is missing or not a number becomes 0. (\<^verbatim>\<open>normalize\<close> applies it to the column it has
  just filled with an integer; the floats and the texts that hold a number, which pandas would
  convert, never stand there.)
\<close>

fun to_int_cell :: "cell \<Rightarrow> cell" where
  "to_int_cell (Val (JInt n)) = Val (JInt n)"
| "to_int_cell (Val (JBool b)) = Val (JInt (if b then 1 else 0))"
| "to_int_cell _ = Val (JInt 0)"

definition map_column :: "dataframe \<Rightarrow> string \<Rightarrow> (cell \<Rightarrow> cell) \<Rightarrow> dataframe" where
  "map_column df col f =
     (if col \<in> set (columns df)
      then df\<lparr>rows := map (\<lambda>row. AList.update col (f (row_get row col)) row) (rows df)\<rparr>
      else df)"

section \<open>Normalization\<close>

text \<open>
  The key of a dictionary must be hashable: a \<^verbatim>\<open>list\<close> or a \<^verbatim>\<open>dict\<close> as the type of a record
  raises \<^verbatim>\<open>TypeError\<close> in the grouping loop.
\<close>

fun hashable :: "jvalue \<Rightarrow> bool" where
  "hashable (JArr xs) = False"
| "hashable (JObj d) = False"
| "hashable _ = True"

definition record_type :: "pydict \<Rightarrow> jvalue" where
  "record_type r = (case map_of r ''type'' of Some v \<Rightarrow> v | None \<Rightarrow> JStr ''unknown'')"

definition bucket :: "(jvalue \<times> pydict list) list \<Rightarrow> jvalue \<Rightarrow> pydict list" where
  "bucket grouped t = (case map_of grouped t of Some rs \<Rightarrow> rs | None \<Rightarrow> [])"

text \<open>
  The grouping loop. (The buckets \<^verbatim>\<open>normalize\<close> reads are those of the four strings; a string
  is equal to no value of another type, so these are the buckets Python builds.)
\<close>

fun group_by_type :: "pydict list \<Rightarrow> (jvalue \<times> pydict list) list \<Rightarrow> py_error + (jvalue \<times> pydict list) list" where
  "group_by_type [] grouped = Inr grouped"
| "group_by_type (r # rs) grouped =
     (if \<not> hashable (record_type r) then Inl TypeError
      else group_by_type rs
             (AList.update (record_type r) (bucket grouped (record_type r) @ [r]) grouped))"

text \<open>The loop over the four types, which builds the table of each type that has a bucket.\<close>

fun build_frames :: "string list \<Rightarrow> (jvalue \<times> pydict list) list \<Rightarrow> py_error + dataframe list" where
  "build_frames [] grouped = Inr []"
| "build_frames (t # ts) grouped =
     (case map_of grouped (JStr t) of
        None \<Rightarrow> build_frames ts grouped
      | Some type_records \<Rightarrow>
          (let type_df = DataFrame type_records;
               core_fields = [''type'', ''source_index''];
               type_specific = filter (\<lambda>col. col \<notin> set core_fields) (columns type_df);
               cols_to_keep = core_fields @ type_specific
           in (case select_columns type_df cols_to_keep of
                 Inl e \<Rightarrow> Inl e
               | Inr type_df' \<Rightarrow>
                   (case build_frames ts grouped of
                      Inl e \<Rightarrow> Inl e
                    | Inr all_rows \<Rightarrow> Inr (type_df' # all_rows)))))"

definition strip_artifacts :: "pydict \<Rightarrow> pydict" where
  "strip_artifacts r = filter (\<lambda>kv. fst kv \<notin> set [''word_count'', ''title'']) r"

text \<open>
  \<^verbatim>\<open>normalize\<close> first makes the stripped copies of the records (\<open>strip_artifacts\<close> of each), then
  works on the copies only: \<open>normalize_cleaned\<close> is the function from the grouping loop on.
\<close>

definition normalize_cleaned :: "pydict list \<Rightarrow> py_error + dataframe" where
  "normalize_cleaned cleaned_data =
     (case group_by_type cleaned_data [] of
        Inl e \<Rightarrow> Inl e
      | Inr grouped_by_type \<Rightarrow>
          (case build_frames [''html'', ''json'', ''text'', ''media''] grouped_by_type of
             Inl e \<Rightarrow> Inl e
           | Inr all_rows \<Rightarrow>
               (let df = (if all_rows \<noteq> [] then concat_frames all_rows else empty_frame) in
                if length (rows df) = 0 then Inr df
                else
                  (let total_items = length (rows df);
                       df1 = set_column df ''total_items'' (Val (JInt (int total_items)));
                       core_order = [''type'', ''source_index'', ''total_items''];
                       other_cols = filter (\<lambda>col. col \<notin> set core_order) (columns df1);
                       final_cols = core_order @ sort other_cols
                   in (case select_columns df1 final_cols of
                         Inl e \<Rightarrow> Inl e
                       | Inr df2 \<Rightarrow> Inr (map_column df2 ''total_items'' to_int_cell))))))"

definition normalize :: "pydict list \<Rightarrow> py_error + dataframe" where
  "normalize data = (let cleaned_data = map strip_artifacts data in normalize_cleaned cleaned_data)"

text \<open>The steps 2 to 4 of \<^verbatim>\<open>run\<close> on a new pipeline: the records, the schema and the table.\<close>

definition new_pipeline :: pipeline where
  "new_pipeline = \<lparr>extracted_data = [], schema = []\<rparr>"

definition run_core :: "soup \<Rightarrow> string \<Rightarrow> pipeline \<times> (py_error + dataframe)" where
  "run_core bs content =
     (let st = infer_schema (extract_content bs content new_pipeline) in (st, normalize (extracted_data st)))"

section \<open>The records as objects\<close>

text \<open>
  The records of \<^verbatim>\<open>self.extracted_data\<close> are dictionary objects, and the list holds references to
  them. For what \<^verbatim>\<open>normalize\<close> does to these objects, the heap is the list of all dictionary
  objects, a reference is an index into it, and a new object is appended. The first loop of
  \<^verbatim>\<open>normalize\<close> builds for every record a new dictionary \<^verbatim>\<open>cleaned\<close>, by a comprehension over the
  items of the record, and appends the reference to \<^verbatim>\<open>cleaned_data\<close>; the rest of the function
  reads the new dictionaries only.
\<close>

type_synonym heap = "pydict list"

definition alloc :: "pydict \<Rightarrow> heap \<Rightarrow> nat \<times> heap" where
  "alloc d h = (length h, h @ [d])"

fun clean_copies :: "nat list \<Rightarrow> heap \<Rightarrow> nat list \<Rightarrow> nat list \<times> heap" where
  "clean_copies [] h cleaned_data = (cleaned_data, h)"
| "clean_copies (record # records) h cleaned_data =
     (case alloc (strip_artifacts (h ! record)) h of
        (cleaned, h') \<Rightarrow> clean_copies records h' (cleaned_data @ [cleaned]))"

definition normalize_store :: "nat list \<Rightarrow> heap \<Rightarrow> (py_error + dataframe) \<times> heap" where
  "normalize_store extracted h =
     (case clean_copies extracted h [] of
        (cleaned_data, h') \<Rightarrow> (normalize_cleaned (map (\<lambda>a. h' ! a) cleaned_data), h'))"

section \<open>The table that normalization builds\<close>

definition row_of :: "string list \<Rightarrow> pydict \<Rightarrow> (string \<times> cell) list" where
  "row_of cols r = map (\<lambda>c. (c, cell_of r c)) cols"

text \<open>The records of one type, in the order of the list.\<close>

definition of_type :: "string \<Rightarrow> pydict list \<Rightarrow> pydict list" where
  "of_type t rs = filter (\<lambda>r. record_type r = JStr t) rs"

text \<open>The table of one bucket.\<close>

definition bucket_cols :: "pydict list \<Rightarrow> string list" where
  "bucket_cols rs = [''type'', ''source_index'']
      @ filter (\<lambda>col. col \<notin> set [''type'', ''source_index'']) (ordered_unique (concat (map keys rs)))"

definition has_index :: "pydict list \<Rightarrow> bool" where
  "has_index rs = (\<exists>r \<in> set rs. ''source_index'' \<in> set (keys r))"

definition bucket_frame_of :: "pydict list \<Rightarrow> dataframe" where
  "bucket_frame_of rs = \<lparr>columns = bucket_cols rs, rows = map (row_of (bucket_cols rs)) rs\<rparr>"

text \<open>The known types and the records \<^verbatim>\<open>normalize\<close> keeps, in the order of its rows.\<close>

definition known_types :: "string list" where
  "known_types = [''html'', ''json'', ''text'', ''media'']"

definition kept_records :: "pydict list \<Rightarrow> pydict list" where
  "kept_records data = concat (map (\<lambda>t. of_type t (map strip_artifacts data)) known_types)"

definition joined_cols :: "pydict list \<Rightarrow> string list" where
  "joined_cols data =
     ordered_unique (concat (map (\<lambda>t. bucket_cols (of_type t (map strip_artifacts data)))
        (filter (\<lambda>t. of_type t (map strip_artifacts data) \<noteq> []) known_types)))"

definition final_cols :: "pydict list \<Rightarrow> string list" where
  "final_cols data =
     [''type'', ''source_index'', ''total_items'']
     @ sort (filter (\<lambda>col. col \<notin> set [''type'', ''source_index'', ''total_items''])
               (append_new ''total_items'' (joined_cols data)))"

definition table_row :: "string list \<Rightarrow> nat \<Rightarrow> pydict \<Rightarrow> (string \<times> cell) list" where
  "table_row cols n r =
     map (\<lambda>c. (c, if c = ''total_items'' then Val (JInt (int n)) else cell_of r c)) cols"

definition table_of :: "pydict list \<Rightarrow> dataframe" where
  "table_of data =
     \<lparr>columns = final_cols data,
      rows = map (table_row (final_cols data) (length (kept_records data))) (kept_records data)\<rparr>"

definition indexed :: "pydict list \<Rightarrow> bool" where
  "indexed data =
     (\<forall>t \<in> set known_types.
        of_type t (map strip_artifacts data) = [] \<or> has_index (of_type t (map strip_artifacts data)))"

text \<open>The number of records of a list that contain a key.\<close>

definition present_count :: "pydict list \<Rightarrow> string \<Rightarrow> nat" where
  "present_count data key = length (filter (\<lambda>item. key \<in> set (keys item)) data)"

text \<open>A record whose type is one of the four that \<^verbatim>\<open>normalize\<close> reads.\<close>

definition known_type :: "pydict \<Rightarrow> bool" where
  "known_type r = (record_type r \<in> set (map JStr known_types))"

section \<open>Key paths\<close>






section \<open>Documents of JSON objects\<close>




text \<open>The records of type json.\<close>

definition is_json_record :: "pydict \<Rightarrow> bool" where
  "is_json_record r = (map_of r ''type'' = Some (JStr ''json''))"

section \<open>Sample inputs\<close>

text \<open>A list of records with four types, one of them unknown, and the table it is normalized to.\<close>

definition sample_records :: "pydict list" where
  "sample_records =
     [[(''type'', JStr ''text''), (''title'', JStr ''Hello''), (''word_count'', JInt 1),
       (''source_index'', JStr ''text_0'')],
      [(''type'', JStr ''note''), (''source_index'', JStr ''note_0'')],
      [(''type'', JStr ''html''), (''title'', JStr ''T''), (''word_count'', JInt 7),
       (''source_index'', JStr ''html_0'')],
      [(''a'', JInt 1), (''type'', JStr ''json''), (''source_index'', JStr ''json_0'')]]"

definition sample_table :: dataframe where
  "sample_table =
     \<lparr>columns = [''type'', ''source_index'', ''total_items'', ''a''],
      rows =
        [[(''type'', Val (JStr ''html'')), (''source_index'', Val (JStr ''html_0'')),
          (''total_items'', Val (JInt 3)), (''a'', NaN)],
         [(''type'', Val (JStr ''json'')), (''source_index'', Val (JStr ''json_0'')),
          (''total_items'', Val (JInt 3)), (''a'', Val (JInt 1))],
         [(''type'', Val (JStr ''text'')), (''source_index'', Val (JStr ''text_0'')),
          (''total_items'', Val (JInt 3)), (''a'', NaN)]]\<rparr>"

definition sample_pipeline :: pipeline where
  "sample_pipeline = \<lparr>extracted_data = sample_records, schema = []\<rparr>"

text \<open>The record of the document \<^verbatim>\<open>{"a":null}\<close>.\<close>

definition null_records :: "pydict list" where
  "null_records = [[(''a'', JNull), (''type'', JStr ''json''), (''source_index'', JStr ''json_0'')]]"

definition null_doc :: string where
  \<open>null_doc = ''{"a":null}''\<close>

definition null_pipeline :: pipeline where
  "null_pipeline = \<lparr>extracted_data = null_records, schema = []\<rparr>"

text \<open>The sample records after \<^verbatim>\<open>infer_schema\<close>, normalized.\<close>

definition filled_table :: dataframe where
  "filled_table =
     \<lparr>columns = [''type'', ''source_index'', ''total_items'', ''a''],
      rows =
        [[(''type'', Val (JStr ''html'')), (''source_index'', Val (JStr ''html_0'')),
          (''total_items'', Val (JInt 3)), (''a'', Val JNull)],
         [(''type'', Val (JStr ''json'')), (''source_index'', Val (JStr ''json_0'')),
          (''total_items'', Val (JInt 3)), (''a'', Val (JInt 1))],
         [(''type'', Val (JStr ''text'')), (''source_index'', Val (JStr ''text_0'')),
          (''total_items'', Val (JInt 3)), (''a'', Val JNull)]]\<rparr>"

text \<open>A record whose type is a list, before a record of type html.\<close>

definition list_typed_records :: "pydict list" where
  "list_typed_records =
     [[(''type'', JArr []), (''source_index'', JStr ''x_0'')],
      [(''type'', JStr ''html''), (''source_index'', JStr ''html_0'')]]"

definition html_only_table :: dataframe where
  "html_only_table =
     \<lparr>columns = [''type'', ''source_index'', ''total_items''],
      rows = [[(''type'', Val (JStr ''html'')), (''source_index'', Val (JStr ''html_0'')),
               (''total_items'', Val (JInt 1))]]\<rparr>"



text \<open>The document of the end-to-end example.\<close>

definition example_doc :: string where
  \<open>example_doc = ''{"a":1}\<newline>{"a":2}\<newline>Hello world this is text\<newline>''\<close>

definition example_records :: "pydict list" where
  "example_records =
     [[(''a'', JInt 1), (''type'', JStr ''json''), (''source_index'', JStr ''json_0'')],
      [(''a'', JInt 2), (''type'', JStr ''json''), (''source_index'', JStr ''json_1'')],
      [(''type'', JStr ''text''), (''title'', JStr ''Hello world this is text''),
       (''word_count'', JInt 5), (''source_index'', JStr ''text_0'')]]"

definition example_table :: dataframe where
  "example_table =
     \<lparr>columns = [''type'', ''source_index'', ''total_items'', ''a''],
      rows =
        [[(''type'', Val (JStr ''json'')), (''source_index'', Val (JStr ''json_0'')),
          (''total_items'', Val (JInt 3)), (''a'', Val (JInt 1))],
         [(''type'', Val (JStr ''json'')), (''source_index'', Val (JStr ''json_1'')),
          (''total_items'', Val (JInt 3)), (''a'', Val (JInt 2))],
         [(''type'', Val (JStr ''text'')), (''source_index'', Val (JStr ''text_0'')),
          (''total_items'', Val (JInt 3)), (''a'', Val JNull)]]\<rparr>"


definition no_soup :: soup where
  "no_soup = \<lparr>soup_title = (\<lambda>s. JStr []), soup_word_count = (\<lambda>s. 0)\<rparr>"


text \<open>A document with a JSON object that has fields named title and word_count.\<close>

definition dune_doc :: string where
  \<open>dune_doc = ''{"title":"Dune","word_count":7,"pages":412}\<newline>A plain line of text''\<close>

definition dune_records :: "pydict list" where
  "dune_records =
     [[(''title'', JStr ''Dune''), (''word_count'', JInt 7), (''pages'', JInt 412),
       (''type'', JStr ''json''), (''source_index'', JStr ''json_0'')],
      [(''type'', JStr ''text''), (''title'', JStr ''A plain line of text''),
       (''word_count'', JInt 5), (''source_index'', JStr ''text_0'')]]"

definition dune_table :: dataframe where
  "dune_table =
     \<lparr>columns = [''type'', ''source_index'', ''total_items'', ''pages''],
      rows =
        [[(''type'', Val (JStr ''json'')), (''source_index'', Val (JStr ''json_0'')),
          (''total_items'', Val (JInt 2)), (''pages'', Val (JInt 412))],
         [(''type'', Val (JStr ''text'')), (''source_index'', Val (JStr ''text_0'')),
          (''total_items'', Val (JInt 2)), (''pages'', Val JNull)]]\<rparr>"

text \<open>A heap that holds the sample records and one more object, and the references to the records.\<close>

definition sample_heap :: heap where
  "sample_heap = [(''other'', JNull)] # sample_records"

definition sample_refs :: "nat list" where
  "sample_refs = [1, 2, 3, 4]"

section \<open>Lemmas on lists, rows and grouping\<close>

lemma set_fold_append_new: "set (fold append_new xs acc) = set acc \<union> set xs"
  by (induction xs arbitrary: acc) (auto simp: append_new_def)

lemma distinct_fold_append_new: "distinct acc \<Longrightarrow> distinct (fold append_new xs acc)"
  by (induction xs arbitrary: acc) (auto simp: append_new_def)

lemma set_ordered_unique: "set (ordered_unique xs) = set xs"
  by (simp add: ordered_unique_def set_fold_append_new)

lemma distinct_ordered_unique: "distinct (ordered_unique xs)"
  by (simp add: ordered_unique_def distinct_fold_append_new)

lemma map_of_tabulate: "map_of (map (\<lambda>c. (c, f c)) cols) c = (if c \<in> set cols then Some (f c) else None)"
  by (induction cols) auto

lemma row_get_tabulate: "row_get (map (\<lambda>c. (c, f c)) cols) c = (if c \<in> set cols then f c else NaN)"
  by (simp add: row_get_def map_of_tabulate)

lemma cell_of_absent: "c \<notin> set (keys r) \<Longrightarrow> cell_of r c = NaN"
proof -
  assume "c \<notin> set (keys r)"
  then have "map_of r c = None" by (simp add: keys_def map_of_eq_None_iff)
  then show ?thesis by (simp add: cell_of_def)
qed

lemma row_get_row_of: "set (keys r) \<subseteq> set cols \<Longrightarrow> row_get (row_of cols r) c = cell_of r c"
proof (cases "c \<in> set cols")
  case True
  then show ?thesis by (simp add: row_of_def row_get_tabulate)
next
  case False
  assume "set (keys r) \<subseteq> set cols"
  with False have "c \<notin> set (keys r)" by auto
  then have "cell_of r c = NaN" by (rule cell_of_absent)
  with False show ?thesis by (simp add: row_of_def row_get_tabulate)
qed

lemma reindex_row_of:
  "set (keys r) \<subseteq> set cols \<Longrightarrow> map (\<lambda>c. (c, row_get (row_of cols r) c)) cols' = row_of cols' r"
  by (simp add: row_of_def row_get_row_of[unfolded row_of_def])

lemma row_get_update: "row_get (AList.update k x row) c = (if c = k then x else row_get row c)"
  by (simp add: row_get_def update_conv')

lemma group_by_type_bucket:
  "group_by_type rs g = Inr g' \<Longrightarrow> bucket g' k = bucket g k @ filter (\<lambda>r. record_type r = k) rs"
proof (induction rs arbitrary: g)
  case Nil then show ?case by simp
next
  case (Cons r rs)
  then show ?case
    by (auto split: if_splits simp: bucket_def update_conv')
qed

lemma group_by_type_dom:
  "group_by_type rs g = Inr g' \<Longrightarrow>
     (map_of g' k = None) = (map_of g k = None \<and> (\<forall>r \<in> set rs. record_type r \<noteq> k))"
proof (induction rs arbitrary: g)
  case Nil then show ?case by simp
next
  case (Cons r rs)
  then show ?case
    by (auto split: if_splits simp: update_conv')
qed

lemma group_by_type_error:
  "(\<exists>g'. group_by_type rs g = Inr g') = (\<forall>r \<in> set rs. hashable (record_type r))"
  by (induction rs arbitrary: g) auto

lemma group_by_type_Inl: "group_by_type rs g = Inl e \<Longrightarrow> e = TypeError"
  by (induction rs arbitrary: g) (auto split: if_splits)

lemma grouped_lookup:
  assumes "group_by_type rs [] = Inr g"
  shows "map_of g (JStr t) = (if of_type t rs = [] then None else Some (of_type t rs))"
proof -
  have b: "bucket g (JStr t) = of_type t rs"
    using group_by_type_bucket[OF assms, of "JStr t"] by (simp add: bucket_def of_type_def)
  have d: "(map_of g (JStr t) = None) = (of_type t rs = [])"
    using group_by_type_dom[OF assms, of "JStr t"] by (auto simp: of_type_def filter_empty_conv)
  show ?thesis
  proof (cases "map_of g (JStr t)")
    case None then show ?thesis using d by simp
  next
    case (Some x) then show ?thesis using b d by (simp add: bucket_def)
  qed
qed

lemma record_type_key: "record_type r = JStr t \<Longrightarrow> t \<noteq> ''unknown'' \<Longrightarrow> ''type'' \<in> set (keys r)"
  by (auto simp: record_type_def keys_def split: option.splits dest: map_of_SomeD intro: rev_image_eqI)

lemma bucket_frame:
  assumes "rs \<noteq> []" "\<forall>r \<in> set rs. ''type'' \<in> set (keys r)"
  shows "select_columns (DataFrame rs) (bucket_cols rs) =
           (if has_index rs then Inr \<lparr>columns = bucket_cols rs, rows = map (row_of (bucket_cols rs)) rs\<rparr>
            else Inl KeyError)"
proof -
  let ?cols = "ordered_unique (concat (map keys rs))"
  have ty: "''type'' \<in> set ?cols" using assms by (cases rs) (auto simp: set_ordered_unique)
  have ix: "(''source_index'' \<in> set ?cols) = has_index rs"
    by (auto simp: set_ordered_unique has_index_def)
  have sub: "\<And>r. r \<in> set rs \<Longrightarrow> set (keys r) \<subseteq> set ?cols"
    by (auto simp: set_ordered_unique)
  have rows: "\<And>r. r \<in> set rs \<Longrightarrow>
      map (\<lambda>c. (c, row_get (map (\<lambda>c. (c, cell_of r c)) ?cols) c)) (bucket_cols rs) = row_of (bucket_cols rs) r"
    using reindex_row_of[OF sub] by (simp add: row_of_def)
  show ?thesis
    using ty ix rows
    by (auto simp: select_columns_def DataFrame_def Let_def bucket_cols_def)
qed

lemma columns_DataFrame: "columns (DataFrame rs) = ordered_unique (concat (map keys rs))"
  by (simp add: DataFrame_def Let_def)

lemma of_type_has_type:
  "t \<noteq> ''unknown'' \<Longrightarrow> \<forall>r \<in> set (of_type t rs). ''type'' \<in> set (keys r)"
  by (auto simp: of_type_def intro: record_type_key)

lemma build_frames_char:
  assumes g: "group_by_type rs [] = Inr g" and ts: "''unknown'' \<notin> set ts"
  shows "build_frames ts g =
           (if \<forall>t \<in> set ts. of_type t rs = [] \<or> has_index (of_type t rs)
            then Inr (map (\<lambda>t. bucket_frame_of (of_type t rs)) (filter (\<lambda>t. of_type t rs \<noteq> []) ts))
            else Inl KeyError)"
  using ts
proof (induction ts)
  case Nil
  then show ?case by simp
next
  case (Cons t ts)
  have t: "t \<noteq> ''unknown''" using Cons.prems by auto
  have ih: "build_frames ts g =
           (if \<forall>t \<in> set ts. of_type t rs = [] \<or> has_index (of_type t rs)
            then Inr (map (\<lambda>t. bucket_frame_of (of_type t rs)) (filter (\<lambda>t. of_type t rs \<noteq> []) ts))
            else Inl KeyError)"
    using Cons by simp
  show ?case
  proof (cases "of_type t rs = []")
    case True
    then show ?thesis using ih grouped_lookup[OF g, of t] by simp
  next
    case False
    have sel: "select_columns (DataFrame (of_type t rs)) (bucket_cols (of_type t rs)) =
           (if has_index (of_type t rs) then Inr (bucket_frame_of (of_type t rs)) else Inl KeyError)"
      using bucket_frame[OF False of_type_has_type[OF t]] by (simp add: bucket_frame_of_def)
    show ?thesis
      using False ih grouped_lookup[OF g, of t] sel
      by (simp add: bucket_cols_def Let_def columns_DataFrame)
  qed
qed

lemma rows_concat_frames:
  "rows (concat_frames frames) =
     concat (map (\<lambda>df. map (\<lambda>row. map (\<lambda>c. (c, row_get row c)) (columns (concat_frames frames))) (rows df)) frames)"
  by (simp add: concat_frames_def Let_def)

lemma columns_concat_frames:
  "columns (concat_frames frames) = ordered_unique (concat (map columns frames))"
  by (simp add: concat_frames_def Let_def)

lemma keys_bucket_cols: "r \<in> set rs \<Longrightarrow> set (keys r) \<subseteq> set (bucket_cols rs)"
  by (auto simp: bucket_cols_def set_ordered_unique)

lemma concat_bucket_frames:
  fixes rs :: "pydict list" and ts :: "string list"
  defines "frames \<equiv> map (\<lambda>t. bucket_frame_of (of_type t rs)) (filter (\<lambda>t. of_type t rs \<noteq> []) ts)"
  shows "rows (concat_frames frames) =
           map (row_of (columns (concat_frames frames))) (concat (map (\<lambda>t. of_type t rs) ts))"
proof -
  have one: "\<And>t cols. map (\<lambda>row. map (\<lambda>c. (c, row_get row c)) cols) (rows (bucket_frame_of (of_type t rs)))
       = map (row_of cols) (of_type t rs)"
    using reindex_row_of[OF keys_bucket_cols] by (simp add: bucket_frame_of_def)
  have "concat (map (\<lambda>t. map (row_of cols) (of_type t rs)) (filter (\<lambda>t. of_type t rs \<noteq> []) ts))
      = map (row_of cols) (concat (map (\<lambda>t. of_type t rs) ts))" for cols
    by (induction ts) auto
  then show ?thesis
    unfolding rows_concat_frames frames_def by (simp add: one comp_def)
qed

lemma map_of_strip_artifacts:
  "map_of (strip_artifacts r) k = (if k \<in> set [''word_count'', ''title''] then None else map_of r k)"
  unfolding strip_artifacts_def by (induction r) auto

lemma record_type_strip [simp]: "record_type (strip_artifacts r) = record_type r"
  by (simp add: record_type_def map_of_strip_artifacts)

lemma concat_frames_buckets:
  fixes rs :: "pydict list" and ts :: "string list"
  defines "frames \<equiv> map (\<lambda>t. bucket_frame_of (of_type t rs)) (filter (\<lambda>t. of_type t rs \<noteq> []) ts)"
  defines "cols \<equiv> ordered_unique (concat (map (\<lambda>t. bucket_cols (of_type t rs)) (filter (\<lambda>t. of_type t rs \<noteq> []) ts)))"
  shows "concat_frames frames = \<lparr>columns = cols, rows = map (row_of cols) (concat (map (\<lambda>t. of_type t rs) ts))\<rparr>"
proof -
  have c: "columns (concat_frames frames) = cols"
    by (simp add: columns_concat_frames frames_def cols_def comp_def bucket_frame_of_def)
  have r: "rows (concat_frames frames) = map (row_of cols) (concat (map (\<lambda>t. of_type t rs) ts))"
    using concat_bucket_frames[of rs ts] c by (simp add: frames_def)
  show ?thesis using c r by (cases "concat_frames frames") simp
qed

lemma final_row:
  assumes sub: "set (keys r) \<subseteq> set cols"
  shows "map (\<lambda>c. (c, row_get (AList.update ''total_items'' x (row_of cols r)) c)) fc
          = map (\<lambda>c. (c, if c = ''total_items'' then x else cell_of r c)) fc"
  by (simp add: row_get_update row_get_row_of[OF sub])

lemma coerce_row:
  assumes "''total_items'' \<in> set fc"
  shows "AList.update ''total_items'' (to_int_cell (row_get (table_row fc n r) ''total_items'')) (table_row fc n r)
           = table_row fc n r"
proof -
  have m: "map_of (table_row fc n r) ''total_items'' = Some (Val (JInt (int n)))"
    using assms by (simp add: table_row_def map_of_tabulate)
  then have "row_get (table_row fc n r) ''total_items'' = Val (JInt (int n))"
    by (simp add: row_get_def)
  then show ?thesis using m by (simp add: update_triv)
qed

lemma kept_records_empty:
  "(kept_records data = []) = (filter (\<lambda>t. of_type t (map strip_artifacts data) \<noteq> []) known_types = [])"
  by (auto simp: kept_records_def filter_empty_conv)

lemma core_in_joined_cols:
  assumes "kept_records data \<noteq> []"
  shows "''type'' \<in> set (joined_cols data) \<and> ''source_index'' \<in> set (joined_cols data)"
proof -
  from assms obtain t where "t \<in> set known_types" "of_type t (map strip_artifacts data) \<noteq> []"
    by (auto simp: kept_records_def)
  then show ?thesis
    by (auto simp: joined_cols_def set_ordered_unique bucket_cols_def)
qed

lemma kept_keys_joined:
  assumes "r \<in> set (kept_records data)"
  shows "set (keys r) \<subseteq> set (joined_cols data)"
proof -
  from assms obtain t where t: "t \<in> set known_types" "r \<in> set (of_type t (map strip_artifacts data))"
    by (auto simp: kept_records_def)
  then have ne: "of_type t (map strip_artifacts data) \<noteq> []" by auto
  have "set (keys r) \<subseteq> set (bucket_cols (of_type t (map strip_artifacts data)))"
    using keys_bucket_cols[OF t(2)] .
  then show ?thesis using t(1) ne by (auto simp: joined_cols_def set_ordered_unique)
qed

lemma normalize_table:
  assumes h: "\<forall>r \<in> set data. hashable (record_type r)" and i: "indexed data"
    and k: "kept_records data \<noteq> []"
  shows "normalize data = Inr (table_of data)"
proof -
  let ?cl = "map strip_artifacts data"
  let ?ti = "''total_items''"
  let ?n = "length (kept_records data)"
  let ?x = "Val (JInt (int ?n))"
  from h have "\<forall>r \<in> set ?cl. hashable (record_type r)" by simp
  then obtain g where g: "group_by_type ?cl [] = Inr g"
    using group_by_type_error[of ?cl "[]"] by blast
  let ?frames = "map (\<lambda>t. bucket_frame_of (of_type t ?cl)) (filter (\<lambda>t. of_type t ?cl \<noteq> []) known_types)"
  have bf: "build_frames [''html'', ''json'', ''text'', ''media''] g = Inr ?frames"
    using build_frames_char[OF g, of known_types] i by (simp add: known_types_def indexed_def)
  have ne: "?frames \<noteq> []" using k by (simp add: kept_records_empty)
  have cf: "concat_frames ?frames = \<lparr>columns = joined_cols data, rows = map (row_of (joined_cols data)) (kept_records data)\<rparr>"
    using concat_frames_buckets[of ?cl known_types] by (simp add: joined_cols_def kept_records_def)
  let ?df1 = "set_column (concat_frames ?frames) ?ti ?x"
  have df1: "?df1 = \<lparr>columns = append_new ?ti (joined_cols data),
                      rows = map (\<lambda>r. AList.update ?ti ?x (row_of (joined_cols data) r)) (kept_records data)\<rparr>"
    by (simp add: cf set_column_def comp_def)
  have fc: "filter (\<lambda>col. col \<notin> set [''type'', ''source_index'', ?ti]) (columns ?df1)
             = filter (\<lambda>col. col \<notin> set [''type'', ''source_index'', ?ti]) (append_new ?ti (joined_cols data))"
    by (simp add: df1)
  have incl: "\<not> (\<exists>c \<in> set (final_cols data). c \<notin> set (columns ?df1))"
    using core_in_joined_cols[OF k] by (auto simp: df1 final_cols_def append_new_def)
  have rows2: "map (\<lambda>row. map (\<lambda>c. (c, row_get row c)) (final_cols data)) (rows ?df1)
        = map (table_row (final_cols data) ?n) (kept_records data)"
    using final_row[OF kept_keys_joined] by (simp add: df1 table_row_def comp_def)
  have sel: "select_columns ?df1 (final_cols data) = Inr (table_of data)"
    using incl rows2 by (simp add: select_columns_def table_of_def)
  have tin: "?ti \<in> set (final_cols data)" by (simp add: final_cols_def)
  have mc: "map_column (table_of data) ?ti to_int_cell = table_of data"
    using tin coerce_row[OF tin] by (simp add: map_column_def table_of_def)
  have len: "length (rows (concat_frames ?frames)) = ?n" by (simp add: cf)
  have fcdef: "[''type'', ''source_index'', ?ti] @ sort (filter (\<lambda>col. col \<notin> set [''type'', ''source_index'', ?ti]) (columns ?df1))
        = final_cols data"
    unfolding fc by (simp add: final_cols_def)
  show ?thesis
    unfolding normalize_def normalize_cleaned_def Let_def
    using g bf ne k len sel mc fcdef by simp
qed

lemma normalize_TypeError:
  assumes "\<not> (\<forall>r \<in> set data. hashable (record_type r))"
  shows "normalize data = Inl TypeError"
proof -
  let ?cl = "map strip_artifacts data"
  from assms have "\<not> (\<forall>r \<in> set ?cl. hashable (record_type r))" by simp
  then have "\<not> (\<exists>g. group_by_type ?cl [] = Inr g)"
    using group_by_type_error[of ?cl "[]"] by blast
  then obtain e where "group_by_type ?cl [] = Inl e" by (cases "group_by_type ?cl []") auto
  then have "group_by_type ?cl [] = Inl TypeError" using group_by_type_Inl by blast
  then show ?thesis by (simp add: normalize_def normalize_cleaned_def)
qed

lemma normalize_KeyError:
  assumes h: "\<forall>r \<in> set data. hashable (record_type r)" and i: "\<not> indexed data"
  shows "normalize data = Inl KeyError"
proof -
  let ?cl = "map strip_artifacts data"
  from h have "\<forall>r \<in> set ?cl. hashable (record_type r)" by simp
  then obtain g where g: "group_by_type ?cl [] = Inr g"
    using group_by_type_error[of ?cl "[]"] by blast
  have bf: "build_frames [''html'', ''json'', ''text'', ''media''] g = Inl KeyError"
    using build_frames_char[OF g, of known_types] i by (simp add: known_types_def indexed_def)
  show ?thesis using g bf by (simp add: normalize_def normalize_cleaned_def)
qed

lemma normalize_empty:
  assumes h: "\<forall>r \<in> set data. hashable (record_type r)" and k: "kept_records data = []"
  shows "normalize data = Inr empty_frame"
proof -
  let ?cl = "map strip_artifacts data"
  from h have "\<forall>r \<in> set ?cl. hashable (record_type r)" by simp
  then obtain g where g: "group_by_type ?cl [] = Inr g"
    using group_by_type_error[of ?cl "[]"] by blast
  have e: "\<forall>t \<in> set known_types. of_type t ?cl = []" using k by (simp add: kept_records_def)
  have bf: "build_frames [''html'', ''json'', ''text'', ''media''] g = Inr []"
    using build_frames_char[OF g, of known_types] e by (simp add: known_types_def)
  show ?thesis using g bf by (simp add: normalize_def normalize_cleaned_def empty_frame_def)
qed

lemma normalize_char:
  "normalize data =
     (if \<not> (\<forall>r \<in> set data. hashable (record_type r)) then Inl TypeError
      else if \<not> indexed data then Inl KeyError
      else if kept_records data = [] then Inr empty_frame
      else Inr (table_of data))"
proof -
  have "indexed data" if "kept_records data = []"
    using that by (simp add: indexed_def kept_records_def)
  then show ?thesis
    using normalize_TypeError[of data] normalize_KeyError[of data] normalize_empty[of data]
      normalize_table[of data]
    by (cases "\<forall>r \<in> set data. hashable (record_type r)";
        cases "indexed data"; cases "kept_records data = []") simp_all
qed

lemma normalize_Inr:
  assumes "normalize data = Inr df"
  shows "df = (if kept_records data = [] then empty_frame else table_of data)"
  using assms by (simp add: normalize_char split: if_splits)

lemma rows_normalize:
  assumes "normalize data = Inr df"
  shows "rows df = map (table_row (columns df) (length (rows df))) (kept_records data)"
  using normalize_Inr[OF assms] by (simp add: empty_frame_def table_of_def)

lemma set_core_sorted:
  fixes core :: "string list"
  assumes "t \<in> set core"
  shows "set (core @ sort (filter (\<lambda>col. col \<notin> set core) (append_new t xs))) = set core \<union> set xs"
  using assms by (auto simp: append_new_def)

lemma set_final_cols:
  "set (final_cols data) = set [''type'', ''source_index'', ''total_items''] \<union> set (joined_cols data)"
  unfolding final_cols_def by (rule set_core_sorted) simp

lemma set_core_rest:
  fixes core :: "string list"
  shows "set (core @ filter (\<lambda>col. col \<notin> set core) (ordered_unique (concat (map keys rs))))
           = set core \<union> (\<Union>r \<in> set rs. set (keys r))"
  by (auto simp: set_ordered_unique)

lemma set_bucket_cols: "set (bucket_cols rs) = set [''type'', ''source_index''] \<union> (\<Union>r \<in> set rs. set (keys r))"
  unfolding bucket_cols_def by (rule set_core_rest)

lemma joined_cols_subset:
  "set (joined_cols data) \<subseteq> set [''type'', ''source_index''] \<union> (\<Union>r \<in> set data. set (keys (strip_artifacts r)))"
proof
  fix c assume "c \<in> set (joined_cols data)"
  then obtain t where "c \<in> set (bucket_cols (of_type t (map strip_artifacts data)))"
    unfolding joined_cols_def set_ordered_unique by auto
  then have "c \<in> set [''type'', ''source_index''] \<union> (\<Union>r \<in> set (of_type t (map strip_artifacts data)). set (keys r))"
    unfolding set_bucket_cols .
  moreover have "set (of_type t (map strip_artifacts data)) \<subseteq> strip_artifacts ` set data"
    unfolding of_type_def by auto
  ultimately show "c \<in> set [''type'', ''source_index''] \<union> (\<Union>r \<in> set data. set (keys (strip_artifacts r)))"
    by blast
qed

lemma keys_filter: "set (keys (filter (\<lambda>kv. fst kv \<notin> A) r)) = set (keys r) - A"
  by (auto simp: keys_def)

lemma keys_strip_artifacts:
  "set (keys (strip_artifacts r)) = set (keys r) - set [''word_count'', ''title'']"
  unfolding strip_artifacts_def by (rule keys_filter)

lemma keys_table_row: "keys (table_row cols n r) = cols"
  by (simp add: keys_def table_row_def comp_def)

lemma in_three: "c \<in> set [a, b] \<Longrightarrow> c \<in> set [a, b, d]"
  by auto

lemma in_core3: "c \<in> set [''type'', ''source_index''] \<Longrightarrow> c \<in> set [''type'', ''source_index'', ''total_items'']"
  by (rule in_three)

lemma keys_filterD: "c \<in> set (keys (filter (\<lambda>kv. fst kv \<notin> A) r)) \<Longrightarrow> c \<notin> A \<and> c \<in> set (keys r)"
  by (auto simp: keys_def)

lemma keys_strip_artifactsD:
  "c \<in> set (keys (strip_artifacts r)) \<Longrightarrow> c \<notin> set [''word_count'', ''title''] \<and> c \<in> set (keys r)"
  unfolding strip_artifacts_def by (rule keys_filterD)

lemma columns_normalize:
  assumes "normalize data = Inr df" and c: "c \<in> set (columns df)"
  shows "c \<in> set [''type'', ''source_index'', ''total_items'']
           \<or> (c \<notin> set [''word_count'', ''title''] \<and> (\<exists>r \<in> set data. c \<in> set (keys r)))"
proof (cases "kept_records data = []")
  case True
  then show ?thesis using normalize_Inr[OF assms(1)] c by (simp add: empty_frame_def)
next
  case False
  then have "columns df = final_cols data" using normalize_Inr[OF assms(1)] by (simp add: table_of_def)
  with c have "c \<in> set (final_cols data)" by simp
  then have "c \<in> set [''type'', ''source_index'', ''total_items''] \<union> set (joined_cols data)"
    by (simp only: set_final_cols)
  then consider (core) "c \<in> set [''type'', ''source_index'', ''total_items'']"
    | (joined) "c \<in> set (joined_cols data)"
    by (elim UnE)
  then show ?thesis
  proof cases
    case core
    then show ?thesis by (rule disjI1)
  next
    case joined
    then have "c \<in> set [''type'', ''source_index''] \<union> (\<Union>r \<in> set data. set (keys (strip_artifacts r)))"
      using joined_cols_subset[of data] by (rule set_rev_mp)
    then consider (a) "c \<in> set [''type'', ''source_index'']"
      | (b) r where "r \<in> set data" "c \<in> set (keys (strip_artifacts r))"
      by (elim UnE UN_E)
    then show ?thesis
    proof cases
      case a
      then show ?thesis by (intro disjI1 in_core3)
    next
      case b
      from b(2) have "c \<notin> set [''word_count'', ''title''] \<and> c \<in> set (keys r)"
        by (rule keys_strip_artifactsD)
      with b(1) show ?thesis by blast
    qed
  qed
qed


section \<open>Lemmas on the heap\<close>

lemma clean_copies_char:
  assumes "\<forall>a \<in> set refs. a < length h"
  shows "clean_copies refs h acc
           = (acc @ map (\<lambda>i. length h + i) [0 ..< length refs],
              h @ map (\<lambda>a. strip_artifacts (h ! a)) refs)"
  using assms
proof (induction refs arbitrary: h acc)
  case Nil
  show ?case by simp
next
  case (Cons a refs)
  have a: "a < length h" using Cons.prems by simp
  have v: "\<forall>b \<in> set refs. b < length (h @ [strip_artifacts (h ! a)])" using Cons.prems by auto
  have m: "map (\<lambda>b. strip_artifacts ((h @ [strip_artifacts (h ! a)]) ! b)) refs
             = map (\<lambda>b. strip_artifacts (h ! b)) refs"
    using Cons.prems by (intro map_cong refl) (simp add: nth_append)
  show ?case
    using Cons.IH[OF v, of "acc @ [length h]"]
    by (simp add: alloc_def m map_upt_Suc del: upt_Suc)
qed

lemma nth_new_objects:
  "map (\<lambda>a. (h @ xs) ! a) (map (\<lambda>i. length h + i) [0 ..< length xs]) = xs"
  by (rule nth_equalityI) (simp_all add: nth_append)

lemma normalize_store_char:
  assumes "\<forall>a \<in> set refs. a < length h"
  shows "normalize_store refs h
           = (normalize (map (\<lambda>a. h ! a) refs), h @ map (\<lambda>a. strip_artifacts (h ! a)) refs)"
proof -
  have n: "map (\<lambda>a. (h @ map (\<lambda>a. strip_artifacts (h ! a)) refs) ! a) (map (\<lambda>i. length h + i) [0 ..< length refs])
             = map (\<lambda>a. strip_artifacts (h ! a)) refs"
    using nth_new_objects[of h "map (\<lambda>a. strip_artifacts (h ! a)) refs"] by simp
  show ?thesis
    using n by (simp add: normalize_store_def clean_copies_char[OF assms] normalize_def comp_def)
qed

section \<open>Lemmas on schema inference\<close>

lemma keys_fold_update:
  "set (keys (fold (\<lambda>key sch. AList.update key (f key) sch) ks sch0)) = set (keys sch0) \<union> set ks"
  by (induction ks arbitrary: sch0) (auto simp: keys_def dom_update)

lemma map_of_fold_update:
  "map_of (fold (\<lambda>key sch. AList.update key (f key) sch) ks sch0) k
     = (if k \<in> set ks then Some (f k) else map_of sch0 k)"
  by (induction ks arbitrary: sch0) (auto simp: update_conv')

lemma schema_infer:
  "map_of (schema (infer_schema st)) key =
     (if key \<in> set (all_keys (extracted_data st)) then Some (describe (extracted_data st) key)
      else map_of (schema st) key)"
  by (simp add: infer_schema_def Let_def map_of_fold_update)

lemma set_all_keys: "set (all_keys data) = (\<Union>item \<in> set data. set (keys item))"
  by (simp add: all_keys_def set_ordered_unique)

lemma py_get_null:
  "(py_get item key = JNull) = (key \<notin> set (keys item) \<or> map_of item key = Some JNull)"
proof (cases "map_of item key")
  case None
  then have "key \<notin> set (keys item)" by (simp add: keys_def map_of_eq_None_iff)
  with None show ?thesis by (simp add: py_get_def)
next
  case (Some v)
  then have "key \<in> set (keys item)" by (auto simp: keys_def dest: map_of_SomeD intro: rev_image_eqI)
  with Some show ?thesis by (simp add: py_get_def)
qed

lemma filter_shorter: "(length (filter P xs) < length xs) = (\<exists>x \<in> set xs. \<not> P x)"
  by (induction xs) (auto simp: less_Suc_eq_le)

lemma any_map: "(a \<in> set (map f xs)) = (\<exists>x \<in> set xs. f x = a)"
  by (induction xs) auto

lemma nullable_describe:
  "nullable (describe data key) =
     (present_count data key < length data \<or> (\<exists>item \<in> set data. map_of item key = Some JNull))"
proof -
  have "nullable (describe data key) = (\<exists>item \<in> set data. py_get item key = JNull)"
    by (simp add: describe_def Let_def any_map del: set_map)
  also have "\<dots> = (\<exists>item \<in> set data. key \<notin> set (keys item) \<or> map_of item key = Some JNull)"
    by (simp only: py_get_null)
  also have "\<dots> = ((\<exists>item \<in> set data. key \<notin> set (keys item)) \<or> (\<exists>item \<in> set data. map_of item key = Some JNull))"
    by blast
  finally show ?thesis by (simp add: present_count_def filter_shorter)
qed

lemma present_in_describe: "present_in (describe data key) = present_count data key"
  by (simp add: describe_def Let_def present_count_def)

lemma fill_step_keys:
  "set (keys (fold (\<lambda>key it. if key \<notin> set (keys it) then AList.update key JNull it else it) ks item))
     = set (keys item) \<union> set ks"
  by (induction ks arbitrary: item) (auto simp: keys_def dom_update)

lemma fill_step_map_of:
  "map_of (fold (\<lambda>key it. if key \<notin> set (keys it) then AList.update key JNull it else it) ks item) k
     = (if k \<in> set ks \<and> k \<notin> set (keys item) then Some JNull else map_of item k)"
proof (induction ks arbitrary: item)
  case Nil
  then show ?case by simp
next
  case (Cons a ks)
  then show ?case
    by (auto simp: update_conv' keys_def dom_update map_of_eq_None_iff)
qed

lemma map_of_fill_missing:
  "map_of (fill_missing ks item) k = (if k \<in> set ks \<or> k \<in> set (keys item) then Some (py_get item k) else None)"
proof (cases "map_of item k")
  case None
  then have "k \<notin> set (keys item)" by (simp add: keys_def map_of_eq_None_iff)
  with None show ?thesis by (simp add: fill_missing_def fill_step_map_of py_get_def)
next
  case (Some v)
  then have "k \<in> set (keys item)" by (auto simp: keys_def dest: map_of_SomeD intro: rev_image_eqI)
  with Some show ?thesis by (simp add: fill_missing_def fill_step_map_of py_get_def)
qed

lemma keys_fill_missing: "set (keys (fill_missing ks item)) = set (keys item) \<union> set ks"
  by (simp add: fill_missing_def fill_step_keys)

lemma distinct_fill_missing: "distinct (keys item) \<Longrightarrow> distinct (keys (fill_missing ks item))"
  unfolding fill_missing_def
  by (induction ks arbitrary: item) (auto simp: keys_def distinct_update)

lemma keys_schema_infer:
  "set (keys (schema (infer_schema st))) = set (keys (schema st)) \<union> set (all_keys (extracted_data st))"
  by (simp add: infer_schema_def Let_def keys_fold_update)

lemma artifact_not_core:
  "''word_count'' \<notin> set [''type'', ''source_index'', ''total_items'']"
  "''title'' \<notin> set [''type'', ''source_index'', ''total_items'']"
  by simp_all

lemma artifact_listed:
  "''word_count'' \<in> set [''word_count'', ''title'']" "''title'' \<in> set [''word_count'', ''title'']"
  by simp_all

lemma no_artifact_column:
  assumes "normalize data = Inr df" and "c \<in> set [''word_count'', ''title'']"
    and "c \<notin> set [''type'', ''source_index'', ''total_items'']"
  shows "c \<notin> set (columns df)"
  using columns_normalize[OF assms(1), of c] assms(2,3) by blast

section \<open>Lemmas on the records of unknown type\<close>

lemma known_type_iff: "known_type r = (\<exists>t \<in> set known_types. record_type r = JStr t)"
  by (auto simp: known_type_def)

lemma of_type_strip: "of_type t (map strip_artifacts rs) = map strip_artifacts (of_type t rs)"
  by (simp add: of_type_def filter_map comp_def)

lemma of_type_known:
  assumes "t \<in> set known_types"
  shows "of_type t (filter known_type rs) = of_type t rs"
proof -
  have "(known_type r \<and> record_type r = JStr t) = (record_type r = JStr t)" for r
    using assms by (auto simp: known_type_iff)
  then show ?thesis by (simp add: of_type_def)
qed

lemma of_type_strip_known:
  assumes "t \<in> set known_types"
  shows "of_type t (map strip_artifacts (filter known_type rs)) = of_type t (map strip_artifacts rs)"
  by (simp add: of_type_strip of_type_known[OF assms])

lemma kept_records_known: "kept_records (filter known_type data) = kept_records data"
  unfolding kept_records_def by (simp add: of_type_strip_known cong: map_cong)

lemma joined_cols_known: "joined_cols (filter known_type data) = joined_cols data"
proof -
  let ?A = "map strip_artifacts (filter known_type data)" and ?B = "map strip_artifacts data"
  have a: "filter (\<lambda>t. of_type t ?A \<noteq> []) known_types = filter (\<lambda>t. of_type t ?B \<noteq> []) known_types"
    by (rule filter_cong) (simp_all add: of_type_strip_known)
  have b: "map (\<lambda>t. bucket_cols (of_type t ?A)) xs = map (\<lambda>t. bucket_cols (of_type t ?B)) xs"
    if "set xs \<subseteq> set known_types" for xs
    using that by (intro map_cong) (auto simp: of_type_strip_known)
  show ?thesis
    unfolding joined_cols_def a by (simp add: b)
qed

lemma indexed_known: "indexed (filter known_type data) = indexed data"
  unfolding indexed_def by (simp add: of_type_strip_known cong: ball_cong)

lemma table_of_known: "table_of (filter known_type data) = table_of data"
  by (simp add: table_of_def final_cols_def kept_records_known joined_cols_known)

lemma known_hashable: "known_type r \<Longrightarrow> hashable (record_type r)"
  by (auto simp: known_type_iff)

lemma normalize_known:
  assumes "\<forall>r \<in> set data. hashable (record_type r)"
  shows "normalize data = normalize (filter known_type data)"
proof -
  have h1: "(\<forall>r \<in> set (filter known_type data). hashable (record_type r)) = True"
    using assms by simp
  have h2: "(\<forall>r \<in> set data. hashable (record_type r)) = True"
    using assms by simp
  show ?thesis
    by (simp only: normalize_char[of data] normalize_char[of "filter known_type data"]
          kept_records_known indexed_known table_of_known h1 h2 simp_thms if_True if_False)
qed

lemma kept_records_eq:
  "kept_records data =
     concat (map (\<lambda>t. map strip_artifacts (filter (\<lambda>r. record_type r = JStr t) data))
                 [''html'', ''json'', ''text'', ''media''])"
  by (simp add: kept_records_def known_types_def of_type_def filter_map comp_def)

section \<open>Lemmas on flattening\<close>






















section \<open>The sample inputs evaluated\<close>

lemma normalize_sample: "normalize sample_records = Inr sample_table"
  by code_simp

lemma sample_keys: "all_keys sample_records = [''type'', ''title'', ''word_count'', ''source_index'', ''a'']"
  by code_simp

lemma sample_count_a: "present_count sample_records ''a'' = 1"
  by code_simp

lemma normalize_filled: "normalize (extracted_data (infer_schema sample_pipeline)) = Inr filled_table"
  by code_simp

lemma schema_keys_sample:
  "keys (schema (infer_schema sample_pipeline)) = [''type'', ''title'', ''word_count'', ''source_index'', ''a'']"
  by code_simp

lemma sample_hashable: "\<forall>r \<in> set sample_records. hashable (record_type r)"
  by code_simp




lemma sample_refs_valid: "\<forall>a \<in> set sample_refs. a < length sample_heap"
  by code_simp

lemma sample_refs_records: "map (\<lambda>a. sample_heap ! a) sample_refs = sample_records"
  by code_simp

section \<open>Lemmas on the JSON parser\<close>

text \<open>
  A successful parse consumes at least one character, so the tests on \<open>length\<close> in
  \<open>parse_value\<close>, \<open>parse_object\<close> and \<open>parse_array\<close> never reject a text.
\<close>

lemma length_skip_ws: "length (skip_ws s) \<le> length s"
  by (simp add: skip_ws_def length_dropWhile_le)

lemma prepend_Some: "prepend c r = Some (str, rest) \<Longrightarrow> \<exists>str'. r = Some (str', rest)"
  by (auto simp: prepend_def split: option.splits)

lemma scanstring_shorter: "scanstring s = Some (str, r) \<Longrightarrow> length r < length s"
proof (induction s arbitrary: str rule: scanstring.induct)
  case 1
  then show ?case by simp
next
  case (2 c cs)
  show ?case
  proof (cases "c = CHR 0x22")
    case True
    then show ?thesis using "2.prems" by simp
  next
    case q: False
    show ?thesis
    proof (cases "c = CHR 0x5C")
      case True
      then obtain e es where cs: "cs = e # es" using "2.prems" q by (cases cs) auto
      show ?thesis
      proof (cases "e = CHR ''u''")
        case u: True
        then obtain n where n: "hex4 (take 4 es) = Some n" "n < 256"
          using "2.prems" q True cs by (auto split: option.splits if_splits)
        then obtain str' where "scanstring (drop 4 es) = Some (str', r)"
          using "2.prems" q True cs u by (auto dest: prepend_Some)
        from "2.IH"(1)[OF q True cs u n(1) n(2) this] show ?thesis using cs by simp
      next
        case u: False
        then obtain ch where ch: "unescape e = Some ch"
          using "2.prems" q True cs by (auto split: option.splits)
        then obtain str' where "scanstring es = Some (str', r)"
          using "2.prems" q True cs u by (auto dest: prepend_Some)
        from "2.IH"(2)[OF q True cs u ch this] show ?thesis using cs by simp
      qed
    next
      case b: False
      then have ctl: "\<not> (of_char c :: nat) < 32" using "2.prems" q by (auto split: if_splits)
      then obtain str' where "scanstring cs = Some (str', r)"
        using "2.prems" q b by (auto dest: prepend_Some)
      from "2.IH"(3)[OF q b ctl this] show ?thesis by simp
    qed
  qed
qed

lemma literal_shorter: "literal word v s = Some (x, r) \<Longrightarrow> word \<noteq> [] \<Longrightarrow> length r < length s"
  by (auto simp: literal_def split: if_splits) (metis length_greater_0_conv length_take min.cobounded1 diff_less length_0_conv take_eq_Nil not_less0 zero_less_iff_neq_zero list.size(3))


lemma length_number_sign: "length (snd (number_sign s)) \<le> length s"
  by (simp add: number_sign_def split: list.splits)

lemma length_int_digits: "length (int_digits s) \<le> length s"
proof (cases s)
  case Nil
  then show ?thesis by (simp add: int_digits_def)
next
  case (Cons d ds)
  then show ?thesis
    using length_takeWhile_le[of is_digit ds] by (simp add: int_digits_def)
qed

lemma scan_number_shorter:
  assumes "scan_number s = Some (x, r)"
  shows "length r < length s"
proof -
  let ?s1 = "snd (number_sign s)"
  let ?i = "int_digits ?s1"
  have i: "?i \<noteq> []" using assms by (auto simp: scan_number_def Let_def split: if_splits)
  have "length r \<le> length ?s1 - length ?i"
    using assms by (auto simp: scan_number_def Let_def split: if_splits)
  moreover have "0 < length ?i" using i by simp
  moreover have "length ?i \<le> length ?s1" by (rule length_int_digits)
  moreover have "length ?s1 \<le> length s" by (rule length_number_sign)
  ultimately show ?thesis by linarith
qed


lemma skip_ws_Cons_shorter: "skip_ws s = d # ds \<Longrightarrow> length ds < length s"
  using length_skip_ws[of s] by simp

lemma parse_shorter:
  "\<forall>v r. parse_value s = Some (v, r) \<longrightarrow> length r < length s"
  "\<forall>v r. parse_object acc s = Some (v, r) \<longrightarrow> length r < length s"
  "\<forall>v r. parse_array accs s = Some (v, r) \<longrightarrow> length r < length s"
proof (induction s and acc s and accs s rule: parse_value_parse_object_parse_array.induct)
  case (1 s)
  show ?case
  proof (intro allI impI)
    fix v r
    assume a: "parse_value s = Some (v, r)"
    then obtain c cs where s: "s = c # cs"
      by (cases s) (simp_all add: parse_value.simps)
    consider (str) "c = CHR 0x22"
      | (obj) "c \<noteq> CHR 0x22" "c = CHR ''{''"
      | (arr) "c \<noteq> CHR 0x22" "c \<noteq> CHR ''{''" "c = CHR ''[''"
      | (lit) "c \<noteq> CHR 0x22" "c \<noteq> CHR ''{''" "c \<noteq> CHR ''[''"
      by blast
    then show "length r < length s"
    proof cases
      case str
      then have "\<exists>str. scanstring cs = Some (str, r)"
        using a s by (subst (asm) parse_value.simps) (auto split: option.splits)
      then show ?thesis using s by (auto dest: scanstring_shorter)
    next
      case obj
      then obtain d ds where d: "skip_ws cs = d # ds"
        using a s by (subst (asm) parse_value.simps) (auto split: list.splits)
      have lds: "length ds < length cs" using d by (rule skip_ws_Cons_shorter)
      show ?thesis
      proof (cases "d = CHR ''}''")
        case True
        then have "r = ds"
          using a s obj d by (subst (asm) parse_value.simps) simp
        then show ?thesis using lds s by simp
      next
        case False
        then have g: "d = CHR 0x22 \<and> length ds < length s" and p: "parse_object [] ds = Some (v, r)"
          using a s obj d by (subst (asm) parse_value.simps, simp split: if_splits)+
        from "1.IH"(1)[OF s obj(1) obj(2) d False g] p have "length r < length ds" by blast
        then show ?thesis using lds s by simp
      qed
    next
      case arr
      then obtain d ds where d: "skip_ws cs = d # ds"
        using a s by (subst (asm) parse_value.simps) (auto split: list.splits)
      have lds: "length ds < length cs" using d by (rule skip_ws_Cons_shorter)
      show ?thesis
      proof (cases "d = CHR '']''")
        case True
        then have "r = ds"
          using a s arr d by (subst (asm) parse_value.simps) simp
        then show ?thesis using lds s by simp
      next
        case False
        then have g: "length (d # ds) < length s" and p: "parse_array [] (d # ds) = Some (v, r)"
          using a s arr d by (subst (asm) parse_value.simps, simp split: if_splits)+
        from "1.IH"(2)[OF s arr(1) arr(2) arr(3) d False g] p have "length r < length (d # ds)" by blast
        then show ?thesis using lds s by simp
      qed
    next
      case lit
      then have "(\<exists>w x. w \<noteq> [] \<and> literal w x s = Some (v, r)) \<or> scan_number s = Some (v, r)"
        using a s by (subst (asm) parse_value.simps) (auto split: if_splits option.splits)
      then show ?thesis by (auto dest: literal_shorter scan_number_shorter)
    qed
  qed
next
  case (2 acc s)
  show ?case
  proof (intro allI impI)
    fix v r
    assume a: "parse_object acc s = Some (v, r)"
    then obtain key r0 where k: "scanstring s = Some (key, r0)"
      by (subst (asm) parse_object.simps) (auto split: option.splits)
    then obtain c r1 where c: "skip_ws r0 = c # r1"
      using a by (subst (asm) parse_object.simps) (auto split: list.splits)
    have g: "\<not> (c \<noteq> CHR '':'' \<or> \<not> length (skip_ws r1) < length s)"
      using a k c by (subst (asm) parse_object.simps) (auto split: if_splits)
    then obtain v1 r2 where v1: "parse_value (skip_ws r1) = Some (v1, r2)"
      using a k c by (subst (asm) parse_object.simps) (auto split: option.splits)
    then obtain d r3 where d: "skip_ws r2 = d # r3"
      using a k c g by (subst (asm) parse_object.simps) (auto split: list.splits)
    have l2: "length r2 < length (skip_ws r1)"
      using "2.IH"(1)[OF k refl c g] v1 by blast
    have l3: "length r3 < length r2" using d by (rule skip_ws_Cons_shorter)
    show "length r < length s"
    proof (cases "d = CHR ''}''")
      case True
      then have "r = r3"
        using a k c g v1 d by (subst (asm) parse_object.simps) auto
      then show ?thesis using l2 l3 g by simp
    next
      case False
      then have comma: "d = CHR '',''"
        using a k c g v1 d by (subst (asm) parse_object.simps) (auto split: if_splits)
      then obtain q r4 where q: "skip_ws r3 = q # r4"
        using a k c g v1 d False by (subst (asm) parse_object.simps) (auto split: list.splits)
      have gq: "q = CHR 0x22 \<and> length r4 < length s"
        using a k c g v1 d False comma q
        by (subst (asm) parse_object.simps) (auto split: if_splits)
      have p: "parse_object (acc @ [(key, v1)]) r4 = Some (v, r)"
        using a k c g v1 d False comma q gq
        by (subst (asm) parse_object.simps) auto
      have "length r < length r4"
        using "2.IH"(2)[OF k refl c g v1 refl d False comma q gq] p by blast
      then show ?thesis using gq by simp
    qed
  qed
next
  case (3 acc s)
  show ?case
  proof (intro allI impI)
    fix v r
    assume a: "parse_array acc s = Some (v, r)"
    then obtain v1 r0 where v1: "parse_value s = Some (v1, r0)"
      by (subst (asm) parse_array.simps) (auto split: option.splits)
    then obtain d r1 where d: "skip_ws r0 = d # r1"
      using a by (subst (asm) parse_array.simps) (auto split: list.splits)
    have l0: "length r0 < length s" using "3.IH"(1) v1 by blast
    have l1: "length r1 < length r0" using d by (rule skip_ws_Cons_shorter)
    show "length r < length s"
    proof (cases "d = CHR '']''")
      case True
      then have "r = r1"
        using a v1 d by (subst (asm) parse_array.simps) auto
      then show ?thesis using l0 l1 by simp
    next
      case False
      then have g: "d = CHR '','' \<and> length (skip_ws r1) < length s"
        using a v1 d by (subst (asm) parse_array.simps) (auto split: if_splits)
      have p: "parse_array (acc @ [v1]) (skip_ws r1) = Some (v, r)"
        using a v1 d False g by (subst (asm) parse_array.simps) auto
      have "length r < length (skip_ws r1)"
        using "3.IH"(2)[OF v1 refl d False g] p by blast
      then show ?thesis using g by simp
    qed
  qed
qed


lemma parse_value_shorter: "parse_value s = Some (v, r) \<Longrightarrow> length r < length s"
  using parse_shorter(1) by blast

lemma parse_array_unguarded:
  "parse_array acc s =
     (case parse_value s of
        None \<Rightarrow> None
      | Some (v, r) \<Rightarrow>
          (case skip_ws r of
             [] \<Rightarrow> None
           | d # r1 \<Rightarrow>
               if d = CHR '']'' then Some (JArr (acc @ [v]), r1)
               else if d = CHR '','' then parse_array (acc @ [v]) (skip_ws r1)
               else None))"
proof (cases "parse_value s")
  case None
  then show ?thesis by (subst parse_array.simps) simp
next
  case (Some p)
  obtain v r where p: "p = (v, r)" by (cases p)
  have l: "length r < length s" using Some p by (auto dest: parse_value_shorter)
  show ?thesis
  proof (cases "skip_ws r")
    case Nil
    then show ?thesis using Some p by (subst parse_array.simps) simp
  next
    case (Cons d r1)
    have "length (skip_ws r1) \<le> length r1" by (rule length_skip_ws)
    moreover have "length r1 < length r" using Cons by (rule skip_ws_Cons_shorter)
    ultimately have "length (skip_ws r1) < length s" using l by linarith
    then show ?thesis using Some p Cons by (subst parse_array.simps) simp
  qed
qed

lemma parse_object_unguarded:
  "parse_object acc s =
     (case scanstring s of
        None \<Rightarrow> None
      | Some (key, r) \<Rightarrow>
          (case skip_ws r of
             [] \<Rightarrow> None
           | c # r1 \<Rightarrow>
               if c \<noteq> CHR '':'' then None
               else
                 (case parse_value (skip_ws r1) of
                    None \<Rightarrow> None
                  | Some (v, r2) \<Rightarrow>
                      (case skip_ws r2 of
                         [] \<Rightarrow> None
                       | d # r3 \<Rightarrow>
                           if d = CHR ''}'' then Some (JObj (py_dict (acc @ [(key, v)])), r3)
                           else if d = CHR '','' then
                             (case skip_ws r3 of
                                [] \<Rightarrow> None
                              | q # r4 \<Rightarrow>
                                  if q = CHR 0x22
                                  then parse_object (acc @ [(key, v)]) r4
                                  else None)
                           else None))))"
proof (cases "scanstring s")
  case None
  then show ?thesis by (subst parse_object.simps) simp
next
  case (Some p)
  obtain key r where p: "p = (key, r)" by (cases p)
  have l: "length r < length s" using Some p by (auto dest: scanstring_shorter)
  show ?thesis
  proof (cases "skip_ws r")
    case Nil
    then show ?thesis using Some p by (subst parse_object.simps) simp
  next
    case (Cons c r1)
    have "length (skip_ws r1) \<le> length r1" by (rule length_skip_ws)
    moreover have "length r1 < length r" using Cons by (rule skip_ws_Cons_shorter)
    ultimately have g1: "length (skip_ws r1) < length s" using l by linarith
    show ?thesis
    proof (cases "parse_value (skip_ws r1)")
      case None
      then show ?thesis using Some p Cons g1 by (subst parse_object.simps) simp
    next
      case v: (Some pv)
      obtain v1 r2 where pv: "pv = (v1, r2)" by (cases pv)
      have l2: "length r2 < length s"
        using v pv g1 by (auto dest: parse_value_shorter)
      show ?thesis
      proof (cases "skip_ws r2")
        case Nil
        then show ?thesis using Some p Cons v pv g1 by (subst parse_object.simps) simp
      next
        case d: (Cons d r3)
        have l3: "length r3 < length s"
          using skip_ws_Cons_shorter[OF d] l2 by linarith
        show ?thesis
        proof (cases "skip_ws r3")
          case Nil
          then show ?thesis using Some p Cons v pv d g1 by (subst parse_object.simps) simp
        next
          case q: (Cons q r4)
          have "length r4 < length s"
            using skip_ws_Cons_shorter[OF q] l3 by linarith
          then show ?thesis
            using Some p Cons v pv d q g1 by (subst parse_object.simps) simp
        qed
      qed
    qed
  qed
qed

lemma parse_value_unguarded:
  "parse_value s =
     (case s of
        [] \<Rightarrow> None
      | c # cs \<Rightarrow>
          if c = CHR 0x22 then
            (case scanstring cs of None \<Rightarrow> None | Some (str, rest) \<Rightarrow> Some (JStr str, rest))
          else if c = CHR ''{'' then
            (case skip_ws cs of
               [] \<Rightarrow> None
             | d # ds \<Rightarrow>
                 if d = CHR ''}'' then Some (JObj [], ds)
                 else if d = CHR 0x22 then parse_object [] ds
                 else None)
          else if c = CHR ''['' then
            (case skip_ws cs of
               [] \<Rightarrow> None
             | d # ds \<Rightarrow>
                 if d = CHR '']'' then Some (JArr [], ds)
                 else parse_array [] (d # ds))
          else if c = CHR ''n'' then literal ''null'' JNull s
          else if c = CHR ''t'' then literal ''true'' (JBool True) s
          else if c = CHR ''f'' then literal ''false'' (JBool False) s
          else
            (case scan_number s of
               Some r \<Rightarrow> Some r
             | None \<Rightarrow>
                 if c = CHR ''N'' then literal ''NaN'' (JFloat ''NaN'') s
                 else if c = CHR ''I'' then literal ''Infinity'' (JFloat ''Infinity'') s
                 else if c = CHR ''-'' then literal ''-Infinity'' (JFloat ''-Infinity'') s
                 else None))"
proof (cases s)
  case Nil
  then show ?thesis by (subst parse_value.simps) simp
next
  case (Cons c cs)
  show ?thesis
  proof (cases "skip_ws cs")
    case Nil
    then show ?thesis using Cons by (subst parse_value.simps) simp
  next
    case d: (Cons d ds)
    have "length ds < length cs" using d by (rule skip_ws_Cons_shorter)
    moreover have "length (d # ds) \<le> length cs" using length_skip_ws[of cs] d by simp
    ultimately show ?thesis using Cons d by (subst parse_value.simps) simp
  qed
qed

section \<open>Lemmas on the patterns\<close>

lemma ascii_lower_lt: "(ascii_lower x = ascii_lower CHR ''<'') = (x = CHR ''<'')"
proof -
  have a: "ascii_lower CHR ''<'' = CHR ''<''" by (simp add: ascii_lower_def)
  have b: "(of_char (ascii_lower x) :: nat) = (if 65 \<le> (of_char x :: nat) \<and> (of_char x :: nat) \<le> 90 then of_char x + 32 else of_char x)"
    by (simp add: ascii_lower_def Let_def)
  have c: "(of_char (CHR ''<'') :: nat) = 60" by simp
  have "(ascii_lower x = CHR ''<'') = ((of_char (ascii_lower x) :: nat) = 60)"
    using c by (metis of_char_eq_iff)
  also have "\<dots> = ((of_char x :: nat) = 60)" unfolding b by auto
  also have "\<dots> = (x = CHR ''<'')" using c by (metis of_char_eq_iff)
  finally show ?thesis unfolding a .
qed

lemma rmatch_tag_other:
  "x \<noteq> CHR ''<'' \<Longrightarrow> rmatch (tag_pattern (CHR ''<'' # opening) closing) (x # xs) k = None"
  by (simp add: tag_pattern_def lit_ci_def ascii_lower_lt)

lemma rmatch_tag_Nil: "rmatch (tag_pattern (CHR ''<'' # opening) closing) [] k = None"
  by (simp add: tag_pattern_def lit_ci_def)

lemma findall_tag_free:
  "CHR ''<'' \<notin> set s \<Longrightarrow> findall Eps (tag_pattern (CHR ''<'' # opening) closing) s = []"
proof (induction s)
  case Nil
  show ?case by (subst findall.simps) (simp add: rmatch_tag_Nil)
next
  case (Cons x s)
  then have x: "x \<noteq> CHR ''<''" and s: "CHR ''<'' \<notin> set s" by auto
  show ?case
    by (subst findall.simps) (simp add: rmatch_tag_other[OF x] Cons.IH[OF s])
qed

lemma html_free:
  "CHR ''<'' \<notin> set content \<Longrightarrow> concat (map (\<lambda>pattern. findall Eps pattern content) html_patterns) = []"
  by (simp add: html_patterns_def findall_tag_free)











section \<open>Lemmas on detection and extraction\<close>














lemma detect_html_free:
  assumes "CHR ''<'' \<notin> set content"
  shows "detect_content_types content =
     \<lparr>det_html = [],
      det_json = fold keep_valid (findall Eps json_pattern content) [],
      det_text = map strip
                   (filter (\<lambda>p. strip p \<noteq> [] \<and> length (strip p) > 5)
                      (split_on CHR 0x0A
                         (fold replace_del (fold keep_valid (findall Eps json_pattern content) []) content))),
      det_base64 = ordered_unique
                     (concat (map (\<lambda>pattern. findall (fst pattern) (snd pattern) content) base64_patterns))\<rparr>"
  by (simp add: detect_content_types_def Let_def html_free[OF assms] ordered_unique_def)

lemma extract_all_Nil: "extract_all tag extractor [] = []"
  by (simp add: extract_all_def enumerate_eq_zip)

section \<open>The example document evaluated\<close>



lemma example_no_lt: "CHR ''<'' \<notin> set example_doc"
  by code_simp

lemma example_json: \<open>fold keep_valid (findall Eps json_pattern example_doc) [] = [''{"a":1}'', ''{"a":2}'']\<close>
  by code_simp

lemma example_text:
  \<open>map strip (filter (\<lambda>p. strip p \<noteq> [] \<and> length (strip p) > 5)
       (split_on CHR 0x0A (fold replace_del [''{"a":1}'', ''{"a":2}''] example_doc)))
     = [''Hello world this is text'']\<close>
  by code_simp

lemma example_base64:
  "ordered_unique (concat (map (\<lambda>pattern. findall (fst pattern) (snd pattern) example_doc) base64_patterns)) = []"
  by code_simp

lemma example_detected:
  \<open>detect_content_types example_doc =
     \<lparr>det_html = [], det_json = [''{"a":1}'', ''{"a":2}''],
      det_text = [''Hello world this is text''], det_base64 = []\<rparr>\<close>
  unfolding detect_html_free[OF example_no_lt] example_json example_text example_base64 ..

lemma example_json_records:
  \<open>extract_all ''json'' extract_json [''{"a":1}'', ''{"a":2}'']
     = [[(''a'', JInt 1), (''type'', JStr ''json''), (''source_index'', JStr ''json_0'')],
        [(''a'', JInt 2), (''type'', JStr ''json''), (''source_index'', JStr ''json_1'')]]\<close>
  by code_simp

lemma example_text_records:
  "extract_all ''text'' extract_text [''Hello world this is text'']
     = [[(''type'', JStr ''text''), (''title'', JStr ''Hello world this is text''),
         (''word_count'', JInt 5), (''source_index'', JStr ''text_0'')]]"
  by code_simp

lemma example_extracted:
  "extract_content bs example_doc new_pipeline = \<lparr>extracted_data = example_records, schema = []\<rparr>"
  unfolding extract_content_def Let_def example_detected
  by (simp add: example_json_records example_text_records new_pipeline_def example_records_def
        extract_all_Nil)

lemma example_normalized:
  "normalize (extracted_data (infer_schema \<lparr>extracted_data = example_records, schema = []\<rparr>)) = Inr example_table"
  by code_simp

section \<open>The document with a JSON title evaluated\<close>

lemma dune_no_lt: "CHR ''<'' \<notin> set dune_doc"
  by code_simp

lemma dune_json:
  \<open>fold keep_valid (findall Eps json_pattern dune_doc) [] = [''{"title":"Dune","word_count":7,"pages":412}'']\<close>
  by code_simp

lemma dune_text:
  \<open>map strip (filter (\<lambda>p. strip p \<noteq> [] \<and> length (strip p) > 5)
       (split_on CHR 0x0A (fold replace_del [''{"title":"Dune","word_count":7,"pages":412}''] dune_doc)))
     = [''A plain line of text'']\<close>
  by code_simp

lemma dune_base64:
  "ordered_unique (concat (map (\<lambda>pattern. findall (fst pattern) (snd pattern) dune_doc) base64_patterns)) = []"
  by code_simp

lemma dune_detected:
  \<open>detect_content_types dune_doc =
     \<lparr>det_html = [], det_json = [''{"title":"Dune","word_count":7,"pages":412}''],
      det_text = [''A plain line of text''], det_base64 = []\<rparr>\<close>
  unfolding detect_html_free[OF dune_no_lt] dune_json dune_text dune_base64 ..

lemma dune_json_records:
  \<open>extract_all ''json'' extract_json [''{"title":"Dune","word_count":7,"pages":412}''] = [dune_records ! 0]\<close>
  by code_simp

lemma dune_text_records:
  "extract_all ''text'' extract_text [''A plain line of text''] = [dune_records ! 1]"
  by code_simp

lemma dune_extracted:
  "extract_content bs dune_doc new_pipeline = \<lparr>extracted_data = dune_records, schema = []\<rparr>"
  unfolding extract_content_def Let_def dune_detected
  by (simp add: dune_json_records dune_text_records new_pipeline_def extract_all_Nil)
     (simp add: dune_records_def)

lemma dune_normalized:
  "normalize (extracted_data (infer_schema \<lparr>extracted_data = dune_records, schema = []\<rparr>)) = Inr dune_table"
  by code_simp

lemma dune_facts:
  "map_of (dune_records ! 0) ''title'' = Some (JStr ''Dune'')"
  "map_of (dune_records ! 0) ''word_count'' = Some (JInt 7)"
  "is_json_record (dune_records ! 0)"
  "''title'' \<notin> set (columns dune_table)"
  "''word_count'' \<notin> set (columns dune_table)"
  by code_simp+

lemma strip_artifacts_keys:
  "''title'' \<notin> set (keys (strip_artifacts r))" "''word_count'' \<notin> set (keys (strip_artifacts r))"
  using keys_strip_artifactsD[of "''title''" r] keys_strip_artifactsD[of "''word_count''" r]
    artifact_listed by blast+

section \<open>The document with a null evaluated\<close>

lemma null_no_lt: "CHR ''<'' \<notin> set null_doc"
  by code_simp

lemma null_json: \<open>fold keep_valid (findall Eps json_pattern null_doc) [] = [''{"a":null}'']\<close>
  by code_simp

lemma null_text:
  \<open>map strip (filter (\<lambda>p. strip p \<noteq> [] \<and> length (strip p) > 5)
       (split_on CHR 0x0A (fold replace_del [''{"a":null}''] null_doc))) = []\<close>
  by code_simp

lemma null_base64:
  "ordered_unique (concat (map (\<lambda>pattern. findall (fst pattern) (snd pattern) null_doc) base64_patterns)) = []"
  by code_simp

lemma null_detected:
  \<open>detect_content_types null_doc =
     \<lparr>det_html = [], det_json = [''{"a":null}''], det_text = [], det_base64 = []\<rparr>\<close>
  unfolding detect_html_free[OF null_no_lt] null_json null_text null_base64 ..

lemma null_json_records: \<open>extract_all ''json'' extract_json [''{"a":null}''] = null_records\<close>
  by code_simp

lemma null_extracted: "extract_content bs null_doc new_pipeline = null_pipeline"
  unfolding extract_content_def Let_def null_detected
  by (simp add: null_json_records new_pipeline_def null_pipeline_def extract_all_Nil)

section \<open>The claims\<close>

text \<open>
  C6: in every table \<^verbatim>\<open>normalize\<close> returns that has a row, the column \<^verbatim>\<open>total_items\<close> holds the same
  integer in every row, and this integer is the number of rows of the table.
\<close>

theorem total_items_constant:
  assumes "normalize data = Inr df" and "rows df \<noteq> []"
  shows "\<forall>row \<in> set (rows df). map_of row ''total_items'' = Some (Val (JInt (int (length (rows df)))))"
proof -
  have k: "kept_records data \<noteq> []"
    using normalize_Inr[OF assms(1)] assms(2) by (cases "kept_records data = []") (simp_all add: empty_frame_def)
  then have d: "df = table_of data"
    using normalize_Inr[OF assms(1)] by simp
  have t: "''total_items'' \<in> set (final_cols data)" by (simp add: final_cols_def)
  have m: "map_of (table_row (final_cols data) n r) ''total_items'' = Some (Val (JInt (int n)))" for n r
    using t by (simp add: table_row_def map_of_tabulate)
  show ?thesis
    unfolding d by (simp add: table_of_def m)
qed

text \<open>The sample records give a table of three rows, each with \<^verbatim>\<open>total_items\<close> 3.\<close>

theorem total_items_constant_witness:
  "normalize sample_records = Inr sample_table \<and> rows sample_table \<noteq> []
     \<and> list_all (\<lambda>row. map_of row ''total_items'' = Some (Val (JInt 3))) (rows sample_table)"
proof -
  have r: "rows sample_table \<noteq> []" by (simp add: sample_table_def)
  have l: "int (length (rows sample_table)) = 3" by (simp add: sample_table_def)
  show ?thesis
    using total_items_constant[OF normalize_sample r] normalize_sample r
    unfolding l by (simp add: list_all_iff)
qed

text \<open>
  C1, as amended: for a key that at least one record contains, the descriptor \<^verbatim>\<open>infer_schema\<close>
  stores has \<^verbatim>\<open>present_in\<close> equal to the number \<open>k\<close> of records that contain the key, and
  \<^verbatim>\<open>nullable\<close> true exactly when \<open>k\<close> is below the number \<open>n\<close> of records or some record holds
  \<^verbatim>\<open>None\<close> under the key. (Where no record holds \<^verbatim>\<open>None\<close> under it, \<^verbatim>\<open>nullable\<close> is \<open>k < n\<close>.)
\<close>

theorem schema_presence_nullable:
  assumes "key \<in> set (all_keys (extracted_data st))"
  shows "\<exists>d. map_of (schema (infer_schema st)) key = Some d
           \<and> present_in d = present_count (extracted_data st) key
           \<and> nullable d = (present_count (extracted_data st) key < length (extracted_data st)
                            \<or> (\<exists>item \<in> set (extracted_data st). map_of item key = Some JNull))"
  using assms by (simp add: schema_infer present_in_describe nullable_describe)

text \<open>The key \<^verbatim>\<open>a\<close> of the sample records: in one record of four, hence nullable.\<close>

theorem schema_presence_nullable_witness:
  "''a'' \<in> set (all_keys (extracted_data sample_pipeline))
     \<and> (\<exists>d. map_of (schema (infer_schema sample_pipeline)) ''a'' = Some d
           \<and> present_in d = 1 \<and> nullable d = True)"
proof -
  have k: "''a'' \<in> set (all_keys (extracted_data sample_pipeline))"
    by (simp add: sample_pipeline_def sample_keys)
  have n: "length (extracted_data sample_pipeline) = 4"
    by (simp add: sample_pipeline_def sample_records_def)
  have c: "present_count (extracted_data sample_pipeline) ''a'' = 1"
    by (simp add: sample_pipeline_def sample_count_a)
  show ?thesis
    using schema_presence_nullable[OF k] k unfolding n c by auto
qed

text \<open>
  C1 as stated fails where a record holds \<^verbatim>\<open>None\<close>: the document \<^verbatim>\<open>{"a":null}\<close> gives one record,
  which contains the key \<^verbatim>\<open>a\<close>, so \<open>k = n = 1\<close> and \<open>k < n\<close> is false, and \<^verbatim>\<open>nullable\<close> is true.
\<close>

theorem nullable_counterexample:
  "extract_content no_soup null_doc new_pipeline = null_pipeline
     \<and> map_of (schema (infer_schema null_pipeline)) ''a''
          = Some \<lparr>value_types = [''NoneType''], nullable = True, present_in = 1\<rparr>
     \<and> present_count (extracted_data null_pipeline) ''a'' = 1
     \<and> length (extracted_data null_pipeline) = 1"
proof -
  have "map_of (schema (infer_schema null_pipeline)) ''a''
          = Some \<lparr>value_types = [''NoneType''], nullable = True, present_in = 1\<rparr>
     \<and> present_count (extracted_data null_pipeline) ''a'' = 1
     \<and> length (extracted_data null_pipeline) = 1"
    by code_simp
  then show ?thesis using null_extracted[of no_soup] by simp
qed

text \<open>
  C3: after \<^verbatim>\<open>infer_schema\<close> the list has the same length, and every record has exactly the keys
  that occur in some record of the list, each with the value the record had, or \<^verbatim>\<open>None\<close> where
  the record lacked the key.
\<close>

theorem fill_forward:
  "length (extracted_data (infer_schema st)) = length (extracted_data st)
     \<and> (\<forall>i < length (extracted_data st).
           set (keys (extracted_data (infer_schema st) ! i)) = set (all_keys (extracted_data st))
           \<and> (\<forall>key \<in> set (all_keys (extracted_data st)).
                 map_of (extracted_data (infer_schema st) ! i) key
                   = Some (py_get (extracted_data st ! i) key)))"
proof -
  have sub: "set (keys (extracted_data st ! i)) \<subseteq> set (all_keys (extracted_data st))"
    if "i < length (extracted_data st)" for i
    using that unfolding set_all_keys by (metis UN_upper nth_mem)
  show ?thesis
    using sub by (auto simp: infer_schema_def Let_def keys_fill_missing map_of_fill_missing)
qed

text \<open>In the sample, the second record gets a null title, the first keeps its own and gets a null \<^verbatim>\<open>a\<close>.\<close>

theorem fill_forward_witness:
  "map_of (extracted_data (infer_schema sample_pipeline) ! 1) ''title'' = Some JNull
     \<and> map_of (extracted_data (infer_schema sample_pipeline) ! 0) ''title'' = Some (JStr ''Hello'')
     \<and> map_of (extracted_data (infer_schema sample_pipeline) ! 0) ''a'' = Some JNull"
proof -
  have n: "length (extracted_data sample_pipeline) = 4"
    by (simp add: sample_pipeline_def sample_records_def)
  have k: "all_keys (extracted_data sample_pipeline) = [''type'', ''title'', ''word_count'', ''source_index'', ''a'']"
    by (simp add: sample_pipeline_def sample_keys)
  have g: "py_get (extracted_data sample_pipeline ! Suc 0) ''title'' = JNull"
     "py_get (extracted_data sample_pipeline ! 0) ''title'' = JStr ''Hello''"
     "py_get (extracted_data sample_pipeline ! 0) ''a'' = JNull"
    by (simp_all add: sample_pipeline_def sample_records_def py_get_def)
  show ?thesis
    using fill_forward[of sample_pipeline] unfolding n k by (simp add: g)
qed

text \<open>
  C5: the table \<^verbatim>\<open>normalize\<close> returns after \<^verbatim>\<open>infer_schema\<close> has no column \<^verbatim>\<open>word_count\<close> and no
  column \<^verbatim>\<open>title\<close>, while the schema of the same run lists each of the two names that some
  record contained before the strip. (By \<open>no_artifact_column\<close> the table of any list of records
  is without the two columns.)
\<close>

theorem artifact_columns:
  assumes "normalize (extracted_data (infer_schema st)) = Inr df"
  shows "''word_count'' \<notin> set (columns df) \<and> ''title'' \<notin> set (columns df)
     \<and> (\<forall>k \<in> set [''word_count'', ''title''].
           k \<in> set (all_keys (extracted_data st)) \<longrightarrow> k \<in> set (keys (schema (infer_schema st))))"
proof -
  have w: "''word_count'' \<notin> set (columns df)"
    by (rule no_artifact_column[OF assms artifact_listed(1) artifact_not_core(1)])
  have t: "''title'' \<notin> set (columns df)"
    by (rule no_artifact_column[OF assms artifact_listed(2) artifact_not_core(2)])
  have s: "k \<in> set (keys (schema (infer_schema st)))" if "k \<in> set (all_keys (extracted_data st))" for k
    using that unfolding keys_schema_infer by (rule UnI2)
  show ?thesis using w t s by blast
qed

text \<open>The sample: title and word count are keys of the schema and no columns of the table.\<close>

theorem artifact_columns_witness:
  "normalize (extracted_data (infer_schema sample_pipeline)) = Inr filled_table
     \<and> ''word_count'' \<notin> set (columns filled_table) \<and> ''title'' \<notin> set (columns filled_table)
     \<and> ''word_count'' \<in> set (all_keys (extracted_data sample_pipeline))
     \<and> ''title'' \<in> set (all_keys (extracted_data sample_pipeline))
     \<and> ''word_count'' \<in> set (keys (schema (infer_schema sample_pipeline)))
     \<and> ''title'' \<in> set (keys (schema (infer_schema sample_pipeline)))"
proof -
  have k: "''word_count'' \<in> set (all_keys (extracted_data sample_pipeline))"
      "''title'' \<in> set (all_keys (extracted_data sample_pipeline))"
    by (simp_all add: sample_pipeline_def sample_keys)
  show ?thesis
    using artifact_columns[OF normalize_filled] normalize_filled k by simp
qed

text \<open>
  C8, as amended: where no record has a list or a dictionary as its type, the records whose type
  is none of html, json, text, media are dropped without an error, that is, \<^verbatim>\<open>normalize\<close> returns
  what it returns for the list without them; and the rows of a table it returns are the records
  of type html, then json, then text, then media, each group in the order of the list.
\<close>

theorem unknown_types_dropped:
  assumes "\<forall>r \<in> set data. hashable (record_type r)"
  shows "normalize data = normalize (filter known_type data)
     \<and> (\<forall>df. normalize data = Inr df \<longrightarrow>
           rows df = map (table_row (columns df) (length (rows df)))
                       (concat (map (\<lambda>t. map strip_artifacts (filter (\<lambda>r. record_type r = JStr t) data))
                                    [''html'', ''json'', ''text'', ''media''])))"
  using normalize_known[OF assms] rows_normalize[of data] unfolding kept_records_eq by blast

text \<open>
  The sample records are hashable, one of them has the unknown type \<^verbatim>\<open>note\<close>, and the table has
  the rows of the html, the json and the text record, in this order.
\<close>

theorem unknown_types_dropped_witness:
  "list_all (\<lambda>r. hashable (record_type r)) sample_records
     \<and> list_all known_type sample_records = False
     \<and> normalize (filter known_type sample_records) = Inr sample_table
     \<and> map (\<lambda>row. map_of row ''source_index'') (rows sample_table)
          = [Some (Val (JStr ''html_0'')), Some (Val (JStr ''json_0'')), Some (Val (JStr ''text_0''))]"
proof -
  have u: "list_all known_type sample_records = False" by code_simp
  have r: "map (\<lambda>row. map_of row ''source_index'') (rows sample_table)
          = [Some (Val (JStr ''html_0'')), Some (Val (JStr ''json_0'')), Some (Val (JStr ''text_0''))]"
    by (simp add: sample_table_def)
  show ?thesis
    using unknown_types_dropped[OF sample_hashable] sample_hashable normalize_sample u r
    by (simp add: list_all_iff)
qed

text \<open>
  C8 as stated fails for a record whose type is a list: it is not dropped, \<^verbatim>\<open>normalize\<close> raises
  \<^verbatim>\<open>TypeError\<close>, while the list without this record gives a table of one row.
\<close>

theorem unknown_types_counterexample:
  "record_type (list_typed_records ! 0) = JArr []
     \<and> known_type (list_typed_records ! 0) = False
     \<and> normalize list_typed_records = Inl TypeError
     \<and> normalize (filter known_type list_typed_records) = Inr html_only_table"
  by code_simp







text \<open>
  C2: for the document \<^verbatim>\<open>'{"a":1}\n{"a":2}\nHello world this is text\n'\<close> extraction gives the two
  json records \<^verbatim>\<open>json_0\<close> with \<^verbatim>\<open>a\<close> 1 and \<^verbatim>\<open>json_1\<close> with \<^verbatim>\<open>a\<close> 2 and the text record \<^verbatim>\<open>text_0\<close>,
  and the table after schema inference and normalization has the columns \<^verbatim>\<open>type\<close>,
  \<^verbatim>\<open>source_index\<close>, \<^verbatim>\<open>total_items\<close>, \<^verbatim>\<open>a\<close> and three rows, each with \<^verbatim>\<open>total_items\<close> 3, the row
  of the text with a null \<^verbatim>\<open>a\<close>. This holds whatever the HTML parser answers.
\<close>

theorem end_to_end_example:
  "extracted_data (extract_content bs example_doc new_pipeline) = example_records
     \<and> snd (run_core bs example_doc) = Inr example_table"
  by (simp add: run_core_def Let_def example_extracted example_normalized)

text \<open>
  C9: for the document whose JSON object has the fields \<^verbatim>\<open>title\<close> and \<^verbatim>\<open>word_count\<close>, the json
  record holds both (\<^verbatim>\<open>Dune\<close> and 7), and the final table has neither column: its columns are
  \<^verbatim>\<open>type\<close>, \<^verbatim>\<open>source_index\<close>, \<^verbatim>\<open>total_items\<close> and \<^verbatim>\<open>pages\<close>. The strip removes the two keys from a
  record of any type.
\<close>

theorem json_title_stripped:
  "is_json_record (extracted_data (extract_content bs dune_doc new_pipeline) ! 0)
     \<and> map_of (extracted_data (extract_content bs dune_doc new_pipeline) ! 0) ''title'' = Some (JStr ''Dune'')
     \<and> map_of (extracted_data (extract_content bs dune_doc new_pipeline) ! 0) ''word_count'' = Some (JInt 7)
     \<and> snd (run_core bs dune_doc) = Inr dune_table
     \<and> ''title'' \<notin> set (columns dune_table) \<and> ''word_count'' \<notin> set (columns dune_table)
     \<and> ''title'' \<notin> set (keys (strip_artifacts r)) \<and> ''word_count'' \<notin> set (keys (strip_artifacts r))"
  by (simp add: run_core_def Let_def dune_extracted dune_normalized dune_facts strip_artifacts_keys
        del: set_simps)

text \<open>
  C10: \<^verbatim>\<open>normalize\<close> writes to no dictionary that existed before the call. With the records
  as objects on a heap and \<^verbatim>\<open>extracted_data\<close> a list of valid references, every object of the
  heap is after the call what it was before, so every record of \<^verbatim>\<open>extracted_data\<close> has the
  fields it had, title and word count included; the stripped dictionaries are new objects, and
  the table is the one of the records.
\<close>

theorem normalize_keeps_records:
  assumes "\<forall>a \<in> set extracted. a < length h"
  shows "(\<forall>a < length h. snd (normalize_store extracted h) ! a = h ! a)
     \<and> map (\<lambda>a. snd (normalize_store extracted h) ! a) extracted = map (\<lambda>a. h ! a) extracted
     \<and> fst (normalize_store extracted h) = normalize (map (\<lambda>a. h ! a) extracted)"
proof -
  have "map (\<lambda>a. (h @ xs) ! a) extracted = map (\<lambda>a. h ! a) extracted" for xs
    using assms by (intro map_cong refl) (simp add: nth_append)
  then show ?thesis
    by (simp add: normalize_store_char[OF assms] nth_append)
qed

text \<open>
  The sample records on a heap: after the call the references lead to the same records, the first
  with its title, and the table is the sample table.
\<close>

theorem normalize_keeps_records_witness:
  "list_all (\<lambda>a. a < length sample_heap) sample_refs
     \<and> map (\<lambda>a. snd (normalize_store sample_refs sample_heap) ! a) sample_refs = sample_records
     \<and> map_of (snd (normalize_store sample_refs sample_heap) ! 1) ''title'' = Some (JStr ''Hello'')
     \<and> fst (normalize_store sample_refs sample_heap) = Inr sample_table"
proof -
  have t: "map_of (sample_heap ! 1) ''title'' = Some (JStr ''Hello'')" by code_simp
  have l: "1 < length sample_heap" by code_simp
  show ?thesis
    using normalize_keeps_records[OF sample_refs_valid] sample_refs_valid l t
    unfolding sample_refs_records normalize_sample
    by (simp add: list_all_iff)
qed

end
